theory Spec2Isabelle
  imports Main "HOL-Library.Multiset"
begin

section \<open>Common values\<close>

text \<open>
  A Python exception instance, named by its class. Every exception of the model is an
  instance of \<^verbatim>\<open>Exception\<close>, the class the handler's \<^verbatim>\<open>except\<close> clause names.
\<close>

datatype exn = Exception string

text \<open>Python's \<^verbatim>\<open>str(n)\<close> for a non-negative and for an arbitrary integer.\<close>

fun str_nat :: "nat \<Rightarrow> string" where
  "str_nat n =
     (if n < 10 then [''0123456789'' ! n]
      else str_nat (n div 10) @ [''0123456789'' ! (n mod 10)])"

declare str_nat.simps [simp del]

definition str_int :: "int \<Rightarrow> string" where
  "str_int i = (if i < 0 then CHR ''-'' # str_nat (nat (- i)) else str_nat (nat i))"

text \<open>Python's \<^verbatim>\<open>sep.join(xs)\<close>.\<close>

fun join :: "string \<Rightarrow> string list \<Rightarrow> string" where
  "join sep [] = []"
| "join sep [x] = x"
| "join sep (x # y # ys) = x @ sep @ join sep (y # ys)"

section \<open>The synchronous model class (sync\_models/model.py)\<close>

text \<open>
  Keyword arguments and serialized data are ordered column/value pairs (a Python dict
  keeps insertion order). A row is what \<^verbatim>\<open>fetchone\<close> hands back.
\<close>

type_synonym kwargs = "(string \<times> string) list"
type_synonym row = "(string \<times> string) list"

text \<open>
  One executed statement: the SQL text and its parameter values. The database cursor is
  modelled by the list of statements executed so far together with a backend, a function
  that says, for a history ending in the statement just executed, whether
  \<^verbatim>\<open>db.execute\<close> raises and otherwise which row \<^verbatim>\<open>db.fetchone()\<close> returns. A backend
  is any function of the history, so it also covers rows inserted by other processes
  between two statements of this one.
\<close>

type_synonym statement = "string \<times> string list"
type_synonym backend = "statement list \<Rightarrow> exn + row option"

text \<open>
  The parts of a model class that \<^verbatim>\<open>SyncModel\<close> inherits from \<^verbatim>\<open>BaseModel\<close>, whose
  source is not part of the sources at hand: the table name, \<^verbatim>\<open>serialize_data\<close>,
  \<^verbatim>\<open>make_where_statement\<close> and the constructor \<^verbatim>\<open>cls(rowdata=...)\<close> (which may raise).
\<close>

record 'm model_cls =
  table :: string
  serialize_data :: "kwargs \<Rightarrow> kwargs"
  make_where_statement :: "kwargs \<Rightarrow> string \<times> string list"
  construct :: "row option \<Rightarrow> exn + 'm"

definition select_statement :: "'m model_cls \<Rightarrow> kwargs \<Rightarrow> statement" where
  "select_statement cls kw =
     (let ser = serialize_data cls kw;
          (where_clause, values) = make_where_statement cls ser
      in (''SELECT * FROM '' @ table cls @ '' WHERE '' @ where_clause @ '';'', values))"

text \<open>\<^verbatim>\<open>SyncModel.load\<close>: the result (or the exception) and the new history.\<close>

definition load ::
  "'m model_cls \<Rightarrow> backend \<Rightarrow> statement list \<Rightarrow> kwargs \<Rightarrow> (exn + 'm option) \<times> statement list" where
  "load cls db hist kw =
     (let hist' = hist @ [select_statement cls kw]
      in case db hist' of
           Inl e \<Rightarrow> (Inl e, hist')
         | Inr data \<Rightarrow>
             (case data of
                None \<Rightarrow> (Inr None, hist')
              | Some d \<Rightarrow>
                  (case construct cls (Some d) of
                     Inl e \<Rightarrow> (Inl e, hist')
                   | Inr m \<Rightarrow> (Inr (Some m), hist'))))"

definition insert_sql :: "'m model_cls \<Rightarrow> kwargs \<Rightarrow> bool \<Rightarrow> string" where
  "insert_sql cls ser ignore_conflicts =
     (let value_list = map (\<lambda>(k, v). [CHR ''\"''] @ k @ [CHR ''\"'']) ser;
          values = map snd ser;
          params = join '', '' (map (\<lambda>idx. CHR ''$'' # str_nat (idx + 1)) [0 ..< length values]);
          sql = [CHR 0x0A] @ ''            INSERT INTO '' @ table cls
                @ '' ('' @ join '', '' value_list @ '')'' @ [CHR 0x0A]
                @ ''            VALUES ('' @ params @ '')'' @ [CHR 0x0A] @ ''        '';
          sql = (if ignore_conflicts then sql @ '' ON CONFLICT DO NOTHING'' else sql)
      in sql @ '' RETURNING *'')"

definition insert_statement :: "'m model_cls \<Rightarrow> kwargs \<Rightarrow> bool \<Rightarrow> statement" where
  "insert_statement cls kw ignore_conflicts =
     (let ser = serialize_data cls kw
      in (insert_sql cls ser ignore_conflicts, map snd ser))"

text \<open>\<^verbatim>\<open>SyncModel.create\<close>; the flag \<^verbatim>\<open>ignore_conflicts\<close> defaults to \<^verbatim>\<open>False\<close>.\<close>

definition create ::
  "'m model_cls \<Rightarrow> backend \<Rightarrow> statement list \<Rightarrow> bool \<Rightarrow> kwargs \<Rightarrow> (exn + 'm) \<times> statement list" where
  "create cls db hist ignore_conflicts kw =
     (let hist' = hist @ [insert_statement cls kw ignore_conflicts]
      in case db hist' of
           Inl e \<Rightarrow> (Inl e, hist')
         | Inr data \<Rightarrow> (construct cls data, hist'))"

text \<open>\<^verbatim>\<open>SyncModel.get_or_create\<close>: it calls \<^verbatim>\<open>create\<close> with the default flag.\<close>

definition get_or_create ::
  "'m model_cls \<Rightarrow> backend \<Rightarrow> statement list \<Rightarrow> kwargs \<Rightarrow> (exn + 'm) \<times> statement list" where
  "get_or_create cls db hist kw =
     (case load cls db hist kw of
        (Inl e, hist') \<Rightarrow> (Inl e, hist')
      | (Inr (Some item), hist') \<Rightarrow> (Inr item, hist')
      | (Inr None, hist') \<Rightarrow> create cls db hist' False kw)"

text \<open>
  A host table for the examples: rows are kept as they are, the filter of a select is
  the conjunction of \<^verbatim>\<open>column = %s\<close> tests.
\<close>

definition host_cls :: "row model_cls" where
  "host_cls =
     \<lparr> table = ''logger_host'',
       serialize_data = (\<lambda>kw. kw),
       make_where_statement =
         (\<lambda>ser. (join '' AND '' (map (\<lambda>(k, v). k @ '' = %s'') ser), map snd ser)),
       construct = (\<lambda>data. case data of
                      None \<Rightarrow> Inl (Exception ''TypeError'')
                    | Some d \<Rightarrow> Inr d) \<rparr>"

text \<open>
  A backend with a uniqueness constraint on the host name in which another process
  inserts the host \<^verbatim>\<open>web1\<close> right after this process's first select: that select finds
  no row, every insert of the name violates the constraint unless it carries
  \<^verbatim>\<open>ON CONFLICT DO NOTHING\<close> (then it returns no row), and every later select finds the
  other process's row.
\<close>

definition other_row :: row where
  "other_row = [(''id'', ''7''), (''name'', ''web1'')]"

definition is_select :: "statement \<Rightarrow> bool" where
  "is_select st = (take 6 (fst st) = ''SELECT'')"

definition race_backend :: backend where
  "race_backend hist =
     (if hist = [] then Inr None
      else if is_select (last hist)
           then (if length hist = 1 then Inr None else Inr (Some other_row))
      else if fst (last hist) = insert_sql host_cls [(''name'', ''web1'')] True
           then Inr None
      else Inl (Exception ''UniqueViolation''))"

section \<open>The asynchronous handler (async\_handler.py): data\<close>

text \<open>
  The fields of a \<^verbatim>\<open>LogRecord\<close> that the handler reads. \<^verbatim>\<open>getMessage()\<close> formats the
  message with the record's arguments and may raise; the attribute \<^verbatim>\<open>tags\<close> may be
  absent, and when present it is iterated in the order given here. The time stamp is
  passed on as it is.
\<close>

record log_record =
  pathname :: string
  name :: string
  funcName :: string
  lineno :: int
  levelno :: int
  getMessage :: "exn + string"
  process :: int
  created :: int
  tags :: "string list option"

text \<open>
  An object of one of the model classes of \<^verbatim>\<open>async_models\<close>: the handler reads the
  primary key \<^verbatim>\<open>pk\<close> of every object and the \<^verbatim>\<open>path\<close> of a source object only.
\<close>

record model_obj =
  pk :: int
  path :: string

datatype model = LogSource | LogFunction | LogLogger | LogHost | LogTag | LogEntry

datatype pyval = PyStr string | PyInt int

datatype conn = Conn string

text \<open>
  The calls the handler makes to storage, with their keyword arguments in the order of
  the source. The module \<^verbatim>\<open>async_models\<close> and \<^verbatim>\<open>asyncpg\<close> are outside the sources at
  hand, so storage is a parameter: a function from the history of calls, ending in the
  call being made, to the exception it raises or the object it returns. Any storage,
  whatever other processes do to it meanwhile, is such a function.
\<close>

datatype call =
    Connect string
  | GetOrCreate model "(string \<times> pyval) list"
  | Create model "(string \<times> pyval) list"
  | AddTags model_obj "model_obj list"

type_synonym tid = nat

record env =
  connect :: "call list \<Rightarrow> exn option"
  storage :: "call list \<Rightarrow> exn + model_obj"
  has_loop :: "tid \<Rightarrow> bool"
  gethostname :: "nat \<Rightarrow> string"

text \<open>
  Program points of \<^verbatim>\<open>emit\<close> and of \<^verbatim>\<open>log_emitter\<close>, named by the source line that is
  executed next. \<^verbatim>\<open>Raised\<close> and \<^verbatim>\<open>Failed\<close> keep the line at which the exception left
  the function. A task at \<^verbatim>\<open>L67\<close> has been created and has not run yet; at
  \<^verbatim>\<open>L71_await\<close> it is suspended in \<^verbatim>\<open>await connect(...)\<close>, holding the outcome that
  storage will deliver; at \<^verbatim>\<open>L81_await\<close> it is suspended in \<^verbatim>\<open>await self.async_emit(record)\<close>.
\<close>

datatype epc = L58 | L59 | L61 | L62 | L63 | L64 | Returned | Raised nat exn

datatype dpc =
    L67 | L70 | L71 | L71_await "exn option" | L72
  | L74 | L75 | L76 | L77 "log_record list" | L78 "log_record list"
  | L80 "log_record list" | L81_await log_record "log_record list"
  | L83 | Finished | Failed nat exn

text \<open>
  The handler object, the lock of \<^verbatim>\<open>logging.Handler\<close> (a re-entrant lock: its owner
  thread and how often the owner has acquired it), and the activities around it: the
  drain tasks created so far, each with the thread of its event loop, and the calls of
  \<^verbatim>\<open>emit\<close>, each with its thread and its record. \<^verbatim>\<open>calls\<close> is the history of storage
  calls, \<^verbatim>\<open>reported\<close> the records passed to \<^verbatim>\<open>handleError\<close>; \<^verbatim>\<open>handled\<close> lists the
  records given to \<^verbatim>\<open>async_emit\<close> and \<^verbatim>\<open>written\<close> those whose processing ended without
  an exception.
\<close>

record state =
  db :: "conn option"
  db_config :: string
  queue :: "log_record list"
  emitter :: "nat option"
  src_cache :: "string \<rightharpoonup> model_obj"
  func_cache :: "string \<rightharpoonup> model_obj"
  logger_cache :: "string \<rightharpoonup> model_obj"
  host_cache :: "string \<rightharpoonup> model_obj"
  tag_cache :: "string \<rightharpoonup> model_obj"
  logger_name :: string
  lock :: "(tid \<times> nat) option"
  calls :: "call list"
  reported :: "log_record list"
  handled :: "log_record list"
  written :: "log_record list"
  tasks :: "(tid \<times> dpc) list"
  emits :: "(tid \<times> log_record \<times> epc) list"

text \<open>\<^verbatim>\<open>DBLogHandler.__init__\<close>; \<^verbatim>\<open>db_config\<close> is a string on every path.\<close>

definition init :: "string \<Rightarrow> string \<Rightarrow> string option \<Rightarrow> string option \<Rightarrow> string \<Rightarrow> int \<Rightarrow> state" where
  "init nm db_name db_user db_password db_host db_port =
     \<lparr> db = None,
       db_config =
         (case db_user of
            Some u \<Rightarrow>
              (case db_password of
                 Some p \<Rightarrow> ''postgresql://'' @ u @ '':'' @ p @ ''@'' @ db_host @ '':''
                           @ str_int db_port @ ''/'' @ db_name
               | None \<Rightarrow> ''postgresql://'' @ u @ ''@'' @ db_host @ '':''
                         @ str_int db_port @ ''/'' @ db_name)
          | None \<Rightarrow> ''postgresql://'' @ db_host @ '':'' @ str_int db_port @ ''/'' @ db_name),
       queue = [], emitter = None,
       src_cache = Map.empty, func_cache = Map.empty, logger_cache = Map.empty,
       host_cache = Map.empty, tag_cache = Map.empty,
       logger_name = nm, lock = None, calls = [], reported = [], handled = [],
       written = [], tasks = [], emits = [] \<rparr>"

text \<open>The calls of \<^verbatim>\<open>emit\<close> that the application is going to make, none begun yet.\<close>

definition with_emits :: "(tid \<times> log_record) list \<Rightarrow> state \<Rightarrow> state" where
  "with_emits invs s = s\<lparr>emits := map (\<lambda>(t, r). (t, r, L58)) invs\<rparr>"

section \<open>Processing one record: \<^verbatim>\<open>async_emit\<close>\<close>

definition call_storage :: "env \<Rightarrow> call \<Rightarrow> state \<Rightarrow> (exn + model_obj) \<times> state" where
  "call_storage env c s = (storage env (calls s @ [c]), s\<lparr>calls := calls s @ [c]\<rparr>)"

text \<open>Lines 87--90.\<close>

definition resolve_src :: "env \<Rightarrow> log_record \<Rightarrow> state \<Rightarrow> (exn + model_obj) \<times> state" where
  "resolve_src env record s =
     (case src_cache s (pathname record) of
        Some src \<Rightarrow> (Inr src, s)
      | None \<Rightarrow>
          (case call_storage env (GetOrCreate LogSource [(''path'', PyStr (pathname record))]) s of
             (Inl e, s') \<Rightarrow> (Inl e, s')
           | (Inr src, s') \<Rightarrow>
               (Inr src, s'\<lparr>src_cache := (src_cache s')(pathname record \<mapsto> src)\<rparr>)))"

text \<open>Line 92.\<close>

definition func_key :: "log_record \<Rightarrow> model_obj \<Rightarrow> string" where
  "func_key record src =
     name record @ ''.'' @ funcName record @ '':'' @ str_int (lineno record) @ ''@'' @ path src"

text \<open>Lines 93--101.\<close>

definition resolve_func :: "env \<Rightarrow> log_record \<Rightarrow> model_obj \<Rightarrow> state \<Rightarrow> (exn + model_obj) \<times> state" where
  "resolve_func env record src s =
     (case func_cache s (func_key record src) of
        Some func \<Rightarrow> (Inr func, s)
      | None \<Rightarrow>
          (case call_storage env
                  (GetOrCreate LogFunction
                     [(''name'', PyStr (name record @ ''.'' @ funcName record)),
                      (''line_number'', PyInt (lineno record)),
                      (''source_id'', PyInt (pk src))]) s of
             (Inl e, s') \<Rightarrow> (Inl e, s')
           | (Inr func, s') \<Rightarrow>
               (Inr func, s'\<lparr>func_cache := (func_cache s')(func_key record src \<mapsto> func)\<rparr>)))"

text \<open>Lines 103--106.\<close>

definition resolve_logger :: "env \<Rightarrow> state \<Rightarrow> (exn + model_obj) \<times> state" where
  "resolve_logger env s =
     (case logger_cache s (logger_name s) of
        Some logger \<Rightarrow> (Inr logger, s)
      | None \<Rightarrow>
          (case call_storage env (GetOrCreate LogLogger [(''name'', PyStr (logger_name s))]) s of
             (Inl e, s') \<Rightarrow> (Inl e, s')
           | (Inr logger, s') \<Rightarrow>
               (Inr logger, s'\<lparr>logger_cache := (logger_cache s')(logger_name s \<mapsto> logger)\<rparr>)))"

text \<open>Lines 109--112, for the host name that line 108 obtained.\<close>

definition resolve_host :: "env \<Rightarrow> string \<Rightarrow> state \<Rightarrow> (exn + model_obj) \<times> state" where
  "resolve_host env host_key s =
     (case host_cache s host_key of
        Some host \<Rightarrow> (Inr host, s)
      | None \<Rightarrow>
          (case call_storage env (GetOrCreate LogHost [(''name'', PyStr host_key)]) s of
             (Inl e, s') \<Rightarrow> (Inl e, s')
           | (Inr host, s') \<Rightarrow>
               (Inr host, s'\<lparr>host_cache := (host_cache s')(host_key \<mapsto> host)\<rparr>)))"

text \<open>Lines 128--131.\<close>

definition resolve_tag :: "env \<Rightarrow> string \<Rightarrow> state \<Rightarrow> (exn + model_obj) \<times> state" where
  "resolve_tag env tag_name s =
     (case tag_cache s tag_name of
        Some tag \<Rightarrow> (Inr tag, s)
      | None \<Rightarrow>
          (case call_storage env (GetOrCreate LogTag [(''name'', PyStr tag_name)]) s of
             (Inl e, s') \<Rightarrow> (Inl e, s')
           | (Inr tag, s') \<Rightarrow>
               (Inr tag, s'\<lparr>tag_cache := (tag_cache s')(tag_name \<mapsto> tag)\<rparr>)))"

text \<open>The loop of lines 127--133 over the tag names, collecting the tag objects.\<close>

fun resolve_tags :: "env \<Rightarrow> string list \<Rightarrow> model_obj list \<Rightarrow> state \<Rightarrow> (exn + model_obj list) \<times> state" where
  "resolve_tags env [] acc s = (Inr acc, s)"
| "resolve_tags env (tag_name # rest) acc s =
     (case resolve_tag env tag_name s of
        (Inl e, s') \<Rightarrow> (Inl e, s')
      | (Inr tag, s') \<Rightarrow> resolve_tags env rest (acc @ [tag]) s')"

text \<open>Line 125: \<^verbatim>\<open>getattr(record, 'tags', set())\<close>.\<close>

definition tags_names :: "log_record \<Rightarrow> string list" where
  "tags_names record = (case tags record of None \<Rightarrow> [] | Some ts \<Rightarrow> ts)"

text \<open>The keyword arguments of \<^verbatim>\<open>LogEntry.create\<close>, lines 114--123.\<close>

definition entry_kwargs ::
  "log_record \<Rightarrow> string \<Rightarrow> model_obj \<Rightarrow> model_obj \<Rightarrow> model_obj \<Rightarrow> (string \<times> pyval) list" where
  "entry_kwargs record message func logger host =
     [(''level'', PyInt (levelno record)),
      (''message'', PyStr message),
      (''pid'', PyInt (process record)),
      (''time'', PyInt (created record)),
      (''function_id'', PyInt (pk func)),
      (''logger_id'', PyInt (pk logger)),
      (''hostname_id'', PyInt (pk host))]"

text \<open>
  The body of the \<^verbatim>\<open>try\<close> statement, lines 87--135: the exception that ends it, if any,
  and the state at that point.
\<close>

definition try_body :: "env \<Rightarrow> string \<Rightarrow> log_record \<Rightarrow> state \<Rightarrow> exn option \<times> state" where
  "try_body env host_key record s =
     (case resolve_src env record s of
        (Inl e, s1) \<Rightarrow> (Some e, s1)
      | (Inr src, s1) \<Rightarrow>
     (case resolve_func env record src s1 of
        (Inl e, s2) \<Rightarrow> (Some e, s2)
      | (Inr func, s2) \<Rightarrow>
     (case resolve_logger env s2 of
        (Inl e, s3) \<Rightarrow> (Some e, s3)
      | (Inr logger, s3) \<Rightarrow>
     (case resolve_host env host_key s3 of
        (Inl e, s4) \<Rightarrow> (Some e, s4)
      | (Inr host, s4) \<Rightarrow>
     (case getMessage record of
        Inl e \<Rightarrow> (Some e, s4)
      | Inr message \<Rightarrow>
     (case call_storage env (Create LogEntry (entry_kwargs record message func logger host)) s4 of
        (Inl e, s5) \<Rightarrow> (Some e, s5)
      | (Inr entry, s5) \<Rightarrow>
     (case resolve_tags env (tags_names record) [] s5 of
        (Inl e, s6) \<Rightarrow> (Some e, s6)
      | (Inr tgs, s6) \<Rightarrow>
     (case call_storage env (AddTags entry tgs) s6 of
        (Inl e, s7) \<Rightarrow> (Some e, s7)
      | (Inr _, s7) \<Rightarrow> (None, s7)))))))))"

text \<open>\<^verbatim>\<open>Handler.handleError\<close> of the logging library: it reports and returns.\<close>

definition handleError :: "log_record \<Rightarrow> state \<Rightarrow> state" where
  "handleError record s = s\<lparr>reported := reported s @ [record]\<rparr>"

text \<open>
  \<^verbatim>\<open>async_emit\<close>, lines 85--138. The host name is the answer of \<^verbatim>\<open>socket.gethostname()\<close>
  for this record.
\<close>

definition async_emit :: "env \<Rightarrow> log_record \<Rightarrow> state \<Rightarrow> state" where
  "async_emit env record s =
     (case try_body env (gethostname env (length (handled s))) record
             (s\<lparr>handled := handled s @ [record]\<rparr>) of
        (Some e, s') \<Rightarrow> handleError record s'
      | (None, s') \<Rightarrow> s'\<lparr>written := written s' @ [record]\<rparr>)"


section \<open>The handler lock\<close>

text \<open>
  \<^verbatim>\<open>Handler.acquire\<close> and \<^verbatim>\<open>Handler.release\<close> on the re-entrant lock made by
  \<^verbatim>\<open>createLock\<close>. Acquiring a lock that another thread owns blocks: the step is not
  possible in that state (\<open>None\<close>). Releasing a lock that the thread does not own raises.
\<close>

definition acquire :: "tid \<Rightarrow> state \<Rightarrow> state option" where
  "acquire t s =
     (case lock s of
        None \<Rightarrow> Some (s\<lparr>lock := Some (t, 1)\<rparr>)
      | Some (owner, n) \<Rightarrow> if owner = t then Some (s\<lparr>lock := Some (t, n + 1)\<rparr>) else None)"

definition release :: "tid \<Rightarrow> state \<Rightarrow> exn + state" where
  "release t s =
     (case lock s of
        None \<Rightarrow> Inl (Exception ''RuntimeError'')
      | Some (owner, n) \<Rightarrow>
          if owner = t then Inr (s\<lparr>lock := (if n \<le> 1 then None else Some (t, n - 1))\<rparr>)
          else Inl (Exception ''RuntimeError''))"

section \<open>\<^verbatim>\<open>emit\<close> and \<^verbatim>\<open>log_emitter\<close>, statement by statement\<close>

text \<open>
  One statement of \<^verbatim>\<open>emit\<close> (lines 57--64), executed by thread \<open>t\<close> for its record: the
  next program point and the new state, or \<open>None\<close> when the statement cannot be executed
  now. \<^verbatim>\<open>asyncio.get_event_loop()\<close> raises in a thread that has no event loop; the task
  made by \<^verbatim>\<open>create_task\<close> belongs to the loop of the calling thread.
\<close>

fun emit_step :: "env \<Rightarrow> tid \<Rightarrow> log_record \<Rightarrow> epc \<Rightarrow> state \<Rightarrow> (epc \<times> state) option" where
  "emit_step env t record L58 s = map_option (Pair L59) (acquire t s)"
| "emit_step env t record L59 s = Some (L61, s\<lparr>queue := queue s @ [record]\<rparr>)"
| "emit_step env t record L61 s = Some (if emitter s = None then L62 else L64, s)"
| "emit_step env t record L62 s =
     Some (if has_loop env t then L63 else Raised 62 (Exception ''RuntimeError''), s)"
| "emit_step env t record L63 s =
     Some (L64, s\<lparr>tasks := tasks s @ [(t, L67)], emitter := Some (length (tasks s))\<rparr>)"
| "emit_step env t record L64 s =
     Some (case release t s of Inl e \<Rightarrow> (Raised 64 e, s) | Inr s' \<Rightarrow> (Returned, s'))"
| "emit_step env t record Returned s = None"
| "emit_step env t record (Raised n e) s = None"

text \<open>
  One statement of \<^verbatim>\<open>log_emitter\<close> (lines 66--83), executed by a task on the loop of
  thread \<open>t\<close>. The test of line 68 is never true, \<^verbatim>\<open>db_config\<close> being a string.
\<close>

fun drain_step :: "env \<Rightarrow> tid \<Rightarrow> dpc \<Rightarrow> state \<Rightarrow> (dpc \<times> state) option" where
  "drain_step env t L67 s = Some (if db s = None then L70 else L74, s)"
| "drain_step env t L70 s = map_option (Pair L71) (acquire t s)"
| "drain_step env t L71 s =
     Some (L71_await (connect env (calls s @ [Connect (db_config s)])),
           s\<lparr>calls := calls s @ [Connect (db_config s)]\<rparr>)"
| "drain_step env t (L71_await None) s = Some (L72, s\<lparr>db := Some (Conn (db_config s))\<rparr>)"
| "drain_step env t (L71_await (Some e)) s = Some (Failed 71 e, s)"
| "drain_step env t L72 s =
     Some (case release t s of Inl e \<Rightarrow> (Failed 72 e, s) | Inr s' \<Rightarrow> (L74, s'))"
| "drain_step env t L74 s = Some (if length (queue s) > 0 then L75 else L83, s)"
| "drain_step env t L75 s = map_option (Pair L76) (acquire t s)"
| "drain_step env t L76 s = Some (L77 (queue s), s)"
| "drain_step env t (L77 q) s = Some (L78 q, s\<lparr>queue := []\<rparr>)"
| "drain_step env t (L78 q) s =
     Some (case release t s of Inl e \<Rightarrow> (Failed 78 e, s) | Inr s' \<Rightarrow> (L80 q, s'))"
| "drain_step env t (L80 []) s = Some (L74, s)"
| "drain_step env t (L80 (record # q)) s = Some (L81_await record q, s)"
| "drain_step env t (L81_await record q) s = Some (L80 q, async_emit env record s)"
| "drain_step env t L83 s = Some (Finished, s\<lparr>emitter := None\<rparr>)"
| "drain_step env t Finished s = None"
| "drain_step env t (Failed n e) s = None"

text \<open>
  A thread executes one activity at a time. A call of \<^verbatim>\<open>emit\<close> occupies its thread from
  the statement after \<^verbatim>\<open>acquire\<close> until it returns or raises; a task occupies the thread
  of its loop except before its first statement, while it is suspended in an \<^verbatim>\<open>await\<close>
  and after its end.
\<close>

fun running_e :: "epc \<Rightarrow> bool" where
  "running_e L59 = True"
| "running_e L61 = True"
| "running_e L62 = True"
| "running_e L63 = True"
| "running_e L64 = True"
| "running_e _ = False"

fun running_d :: "dpc \<Rightarrow> bool" where
  "running_d L67 = False"
| "running_d (L71_await x) = False"
| "running_d (L81_await record q) = False"
| "running_d Finished = False"
| "running_d (Failed n e) = False"
| "running_d _ = True"

definition others_idle :: "state \<Rightarrow> tid \<Rightarrow> nat option \<Rightarrow> nat option \<Rightarrow> bool" where
  "others_idle s t je jd \<longleftrightarrow>
     (\<forall>k<length (emits s). Some k \<noteq> je \<and> fst (emits s ! k) = t
          \<longrightarrow> \<not> running_e (snd (snd (emits s ! k))))
     \<and> (\<forall>i<length (tasks s). Some i \<noteq> jd \<and> fst (tasks s ! i) = t
          \<longrightarrow> \<not> running_d (snd (tasks s ! i)))"

text \<open>
  The scheduler picks an activity, a call of \<^verbatim>\<open>emit\<close> or a task, and that activity
  executes its next statement, provided its thread is not occupied by another activity
  and the statement does not block.
\<close>

datatype agent = Emit nat | Drain nat

fun step :: "env \<Rightarrow> agent \<Rightarrow> state \<Rightarrow> state option" where
  "step env (Emit j) s =
     (if j < length (emits s) then
        (case emits s ! j of
           (t, record, pc) \<Rightarrow>
             if others_idle s t (Some j) None then
               (case emit_step env t record pc s of
                  None \<Rightarrow> None
                | Some (pc', s') \<Rightarrow> Some (s'\<lparr>emits := (emits s')[j := (t, record, pc')]\<rparr>))
             else None)
      else None)"
| "step env (Drain i) s =
     (if i < length (tasks s) then
        (case tasks s ! i of
           (t, pc) \<Rightarrow>
             if others_idle s t None (Some i) then
               (case drain_step env t pc s of
                  None \<Rightarrow> None
                | Some (pc', s') \<Rightarrow> Some (s'\<lparr>tasks := (tasks s')[i := (t, pc')]\<rparr>))
             else None)
      else None)"

text \<open>A schedule is run from left to right; it is possible only if each of its steps is.\<close>

fun run :: "env \<Rightarrow> agent list \<Rightarrow> state \<Rightarrow> state option" where
  "run env [] s = Some s"
| "run env (a # sched) s = (case step env a s of None \<Rightarrow> None | Some s' \<Rightarrow> run env sched s')"

section \<open>Invariants of the interleaved execution\<close>

text \<open>Thread and program point of the \<open>j\<close>-th call of \<^verbatim>\<open>emit\<close> and of the \<open>i\<close>-th task.\<close>

definition e_tid :: "state \<Rightarrow> nat \<Rightarrow> tid" where
  "e_tid s j = fst (emits s ! j)"

definition e_pc :: "state \<Rightarrow> nat \<Rightarrow> epc" where
  "e_pc s j = snd (snd (emits s ! j))"

definition d_tid :: "state \<Rightarrow> nat \<Rightarrow> tid" where
  "d_tid s i = fst (tasks s ! i)"

definition d_pc :: "state \<Rightarrow> nat \<Rightarrow> dpc" where
  "d_pc s i = snd (tasks s ! i)"

text \<open>
  The program points at which an activity has acquired the lock and not released it: in
  \<^verbatim>\<open>emit\<close> between lines 58 and 64, also after the exception of line 62; in
  \<^verbatim>\<open>log_emitter\<close> between lines 70 and 72, also after a failed connect, and between
  lines 75 and 78.
\<close>

fun holds_e :: "epc \<Rightarrow> bool" where
  "holds_e L58 = False"
| "holds_e Returned = False"
| "holds_e (Raised n e) = (n = 62)"
| "holds_e _ = True"

fun holds_d :: "dpc \<Rightarrow> bool" where
  "holds_d L71 = True"
| "holds_d (L71_await x) = True"
| "holds_d L72 = True"
| "holds_d L76 = True"
| "holds_d (L77 q) = True"
| "holds_d (L78 q) = True"
| "holds_d (Failed n e) = (n = 71)"
| "holds_d _ = False"

text \<open>A task is draining from its creation until it has cleared the flag or has failed.\<close>

fun active_d :: "dpc \<Rightarrow> bool" where
  "active_d Finished = False"
| "active_d (Failed n e) = False"
| "active_d _ = True"

definition holders :: "state \<Rightarrow> nat" where
  "holders s = length (filter (\<lambda>x. holds_e (snd (snd x))) (emits s))
               + length (filter (\<lambda>x. holds_d (snd x)) (tasks s))"

text \<open>
  The lock is consistent with the program points: its count is the number of activities
  that hold it, and they all run on the thread that owns it.
\<close>

definition lock_ok :: "state \<Rightarrow> bool" where
  "lock_ok s \<longleftrightarrow>
     (case lock s of
        None \<Rightarrow> holders s = 0
      | Some (t, n) \<Rightarrow>
          holders s = n \<and> 0 < n
          \<and> (\<forall>j<length (emits s). holds_e (e_pc s j) \<longrightarrow> e_tid s j = t)
          \<and> (\<forall>i<length (tasks s). holds_d (d_pc s i) \<longrightarrow> d_tid s i = t))"

text \<open>
  The flag is consistent with the tasks: the flag names every draining task and every
  task whose connect failed, and it is clear while a call of \<^verbatim>\<open>emit\<close> is between its
  test of the flag and its assignment to it.
\<close>

definition flag_ok :: "state \<Rightarrow> bool" where
  "flag_ok s \<longleftrightarrow>
     (\<forall>i<length (tasks s). active_d (d_pc s i) \<or> holds_d (d_pc s i) \<longrightarrow> emitter s = Some i)
     \<and> (\<forall>j<length (emits s). e_pc s j = L62 \<or> e_pc s j = L63 \<longrightarrow> emitter s = None)"


text \<open>The two properties together; they hold initially and after every step.\<close>

definition invariant :: "state \<Rightarrow> bool" where
  "invariant s \<longleftrightarrow> lock_ok s \<and> flag_ok s"

text \<open>No thread executes two activities at once.\<close>

definition one_per_thread :: "state \<Rightarrow> bool" where
  "one_per_thread s \<longleftrightarrow>
     (\<forall>j<length (emits s). \<forall>k<length (emits s).
         j \<noteq> k \<and> e_tid s j = e_tid s k \<and> running_e (e_pc s j) \<longrightarrow> \<not> running_e (e_pc s k))
     \<and> (\<forall>i<length (tasks s). \<forall>k<length (tasks s).
         i \<noteq> k \<and> d_tid s i = d_tid s k \<and> running_d (d_pc s i) \<longrightarrow> \<not> running_d (d_pc s k))
     \<and> (\<forall>j<length (emits s). \<forall>i<length (tasks s).
         e_tid s j = d_tid s i \<and> running_e (e_pc s j) \<longrightarrow> \<not> running_d (d_pc s i))"


section \<open>Predicates and examples used in the statements\<close>

text \<open>
  \<open>frame s s'\<close>: everything but the caches and the history of storage calls is the same
  in both states. \<open>caches_grow s s'\<close>: every cache entry of \<open>s\<close> is an entry of \<open>s'\<close>.
  \<open>raises env record s\<close>: the \<^verbatim>\<open>try\<close> body of \<^verbatim>\<open>async_emit\<close> for this record, begun in
  \<open>s\<close>, ends with an exception.
\<close>

definition frame :: "state \<Rightarrow> state \<Rightarrow> bool" where
  "frame s s' \<longleftrightarrow>
     db s' = db s \<and> db_config s' = db_config s \<and> queue s' = queue s \<and> emitter s' = emitter s
     \<and> logger_name s' = logger_name s \<and> lock s' = lock s \<and> reported s' = reported s
     \<and> handled s' = handled s \<and> written s' = written s \<and> tasks s' = tasks s
     \<and> emits s' = emits s"

definition caches_grow :: "state \<Rightarrow> state \<Rightarrow> bool" where
  "caches_grow s s' \<longleftrightarrow>
     src_cache s \<subseteq>\<^sub>m src_cache s' \<and> func_cache s \<subseteq>\<^sub>m func_cache s'
     \<and> logger_cache s \<subseteq>\<^sub>m logger_cache s' \<and> host_cache s \<subseteq>\<^sub>m host_cache s'
     \<and> tag_cache s \<subseteq>\<^sub>m tag_cache s'"

definition raises :: "env \<Rightarrow> log_record \<Rightarrow> state \<Rightarrow> bool" where
  "raises env record s \<longleftrightarrow>
     fst (try_body env (gethostname env (length (handled s))) record
            (s\<lparr>handled := handled s @ [record]\<rparr>)) \<noteq> None"

text \<open>
  An example storage: get-or-create answers with the position of the first such call
  in the history (so equal keys give equal rows), creating an entry fails for the
  message \<^verbatim>\<open>boom\<close>, connecting is answered by \<open>connect\<close> of the environment.
\<close>

definition mem_storage :: "call list \<Rightarrow> exn + model_obj" where
  "mem_storage hist =
     (case last hist of
        Connect dsn \<Rightarrow> Inl (Exception ''InterfaceError'')
      | GetOrCreate m kw \<Rightarrow>
          Inr \<lparr>pk = int (length (takeWhile (\<lambda>c. c \<noteq> last hist) hist)) + 1,
               path = (case (m, kw) of (LogSource, (k, PyStr v) # _) \<Rightarrow> v | _ \<Rightarrow> [])\<rparr>
      | Create m kw \<Rightarrow>
          if (''message'', PyStr ''boom'') \<in> set kw then Inl (Exception ''PostgresError'')
          else Inr \<lparr>pk = int (length hist), path = []\<rparr>
      | AddTags entry tgs \<Rightarrow> Inr entry)"

definition env0 :: env where
  "env0 = \<lparr>connect = (\<lambda>hist. None), storage = mem_storage, has_loop = (\<lambda>t. t = 0),
           gethostname = (\<lambda>n. ''web1'')\<rparr>"

definition rec_a :: log_record where
  "rec_a = \<lparr>pathname = ''/a.py'', name = ''app'', funcName = ''f'', lineno = 1, levelno = 20,
            getMessage = Inr ''started'', process = 4242, created = 1000, tags = Some [''x'']\<rparr>"

definition rec_b :: log_record where
  "rec_b = \<lparr>pathname = ''/a.py'', name = ''app.worker'', funcName = ''g'', lineno = 7, levelno = 30,
            getMessage = Inr ''stopped'', process = 4242, created = 1002, tags = None\<rparr>"


definition handler0 :: state where
  "handler0 = init ''app'' ''logs'' None None ''localhost'' 5432"

text \<open>
  Kinds of storage calls: a get-or-create of one of the four dimensions that every
  record has (source, function, logger, host), and a get-or-create of a tag.
\<close>

fun is_dim_call :: "call \<Rightarrow> bool" where
  "is_dim_call (GetOrCreate m kw) = (m \<noteq> LogTag \<and> m \<noteq> LogEntry)"
| "is_dim_call _ = False"

fun is_tag_call :: "call \<Rightarrow> bool" where
  "is_tag_call (GetOrCreate m kw) = (m = LogTag)"
| "is_tag_call _ = False"

text \<open>
  Examples of executions: two calls of \<^verbatim>\<open>emit\<close>, the first on thread 0, which runs the
  event loop, the second on thread 1; a storage that refuses the connection; and a
  schedule in which the second call runs after the task's last test of the queue and
  before the task clears the flag.
\<close>

definition two_calls :: state where
  "two_calls = with_emits [(0, rec_a), (1, rec_b)] handler0"

definition env_down :: env where
  "env_down = env0\<lparr>connect := (\<lambda>hist. Some (Exception ''ConnectionRefusedError''))\<rparr>"

definition sched_strand :: "agent list" where
  "sched_strand = replicate 6 (Emit 0) @ replicate 14 (Drain 0) @ replicate 4 (Emit 1) @ [Drain 0]"

text \<open>What the statements about executions observe of a state.\<close>

definition obs :: "state \<Rightarrow> (tid \<times> nat) option \<times> nat option \<times> log_record list \<times> (tid \<times> dpc) list \<times> epc list \<times> log_record list" where
  "obs s = (lock s, emitter s, queue s, tasks s, map (snd \<circ> snd) (emits s), handled s)"




section \<open>Get-or-create on the synchronous model\<close>

lemma select_statement_host:
  "select_statement host_cls [(''name'', ''web1'')]
     = (''SELECT * FROM logger_host WHERE name = %s;'', [''web1''])"
  by (simp add: select_statement_def host_cls_def)

lemma race_backend_first_select:
  "race_backend [select_statement host_cls [(''name'', ''web1'')]] = Inr None"
  by (simp add: race_backend_def is_select_def select_statement_host)

lemma race_backend_second_select:
  "race_backend [select_statement host_cls [(''name'', ''web1'')],
                 select_statement host_cls [(''name'', ''web1'')]] = Inr (Some other_row)"
  by (simp add: race_backend_def is_select_def select_statement_host)

lemma race_backend_plain_insert:
  "race_backend [select_statement host_cls [(''name'', ''web1'')],
                 insert_statement host_cls [(''name'', ''web1'')] False]
     = Inl (Exception ''UniqueViolation'')"
  by (simp add: race_backend_def is_select_def insert_statement_def insert_sql_def
      host_cls_def str_nat.simps)

text \<open>
  Claim C1, as stated, fails. With a backend in which another process inserts the host
  between this process's select and its insert, \<^const>\<open>get_or_create\<close> does not return
  the existing row: the uniqueness violation raised by the insert reaches the caller.
\<close>

theorem get_or_create_conflict_counterexample:
  "fst (get_or_create host_cls race_backend [] [(''name'', ''web1'')])
     = Inl (Exception ''UniqueViolation'')"
  by (simp add: get_or_create_def load_def create_def race_backend_first_select
      race_backend_plain_insert)

text \<open>
  Claim C1, amended: \<^const>\<open>get_or_create\<close> returns the row that its select finds,
  executing nothing else; when the select finds no row it executes one insert without
  the conflict clause, and an exception raised by that insert (a uniqueness violation,
  say) is raised to the caller: nothing is selected again.
\<close>

theorem get_or_create_load_then_plain_create:
  "(bk (hist @ [select_statement cls kw]) = Inr (Some d) \<and> construct cls (Some d) = Inr m
      \<longrightarrow> get_or_create cls bk hist kw = (Inr m, hist @ [select_statement cls kw]))
   \<and> (bk (hist @ [select_statement cls kw]) = Inr None
        \<and> bk (hist @ [select_statement cls kw, insert_statement cls kw False]) = Inl e
      \<longrightarrow> get_or_create cls bk hist kw
            = (Inl e, hist @ [select_statement cls kw, insert_statement cls kw False]))"
  by (simp add: get_or_create_def load_def create_def)

theorem get_or_create_load_then_plain_create_witness:
  "race_backend ([select_statement host_cls [(''name'', ''web1'')]]
                 @ [select_statement host_cls [(''name'', ''web1'')]]) = Inr (Some other_row)
   \<and> construct host_cls (Some other_row) = Inr other_row
   \<and> get_or_create host_cls race_backend
        [select_statement host_cls [(''name'', ''web1'')]] [(''name'', ''web1'')]
       = (Inr other_row, [select_statement host_cls [(''name'', ''web1'')],
                          select_statement host_cls [(''name'', ''web1'')]])
   \<and> race_backend ([] @ [select_statement host_cls [(''name'', ''web1'')]]) = Inr None
   \<and> race_backend ([] @ [select_statement host_cls [(''name'', ''web1'')],
                          insert_statement host_cls [(''name'', ''web1'')] False])
       = Inl (Exception ''UniqueViolation'')
   \<and> get_or_create host_cls race_backend [] [(''name'', ''web1'')]
       = (Inl (Exception ''UniqueViolation''),
          [select_statement host_cls [(''name'', ''web1'')],
           insert_statement host_cls [(''name'', ''web1'')] False])"
proof -
  have c: "construct host_cls (Some other_row) = Inr other_row"
    by (simp add: host_cls_def)
  show ?thesis
    using get_or_create_load_then_plain_create
            [where bk = race_backend and cls = host_cls and kw = "[(''name'', ''web1'')]"
               and hist = "[select_statement host_cls [(''name'', ''web1'')]]"
               and d = other_row and m = other_row]
          get_or_create_load_then_plain_create
            [where bk = race_backend and cls = host_cls and kw = "[(''name'', ''web1'')]"
               and hist = "[]" and e = "Exception ''UniqueViolation''"]
    by (simp add: c race_backend_first_select race_backend_second_select
        race_backend_plain_insert)
qed

section \<open>Processing records: frame and cache lemmas\<close>

lemma frame_refl [simp]: "frame s s" by (simp add: frame_def)

lemma frame_trans: "frame s s1 \<Longrightarrow> frame s1 s2 \<Longrightarrow> frame s s2" by (simp add: frame_def)

lemma caches_grow_refl [simp]: "caches_grow s s" by (simp add: caches_grow_def)

lemma caches_grow_trans: "caches_grow s s1 \<Longrightarrow> caches_grow s1 s2 \<Longrightarrow> caches_grow s s2"
  unfolding caches_grow_def by (meson map_le_trans)

lemma call_storage_frame: "call_storage env c s = (x, s') \<Longrightarrow> frame s s' \<and> caches_grow s s'"
  by (auto simp: call_storage_def frame_def caches_grow_def)

lemma map_le_upd_fresh: "m k = None \<Longrightarrow> m \<subseteq>\<^sub>m m(k \<mapsto> v)"
  by (auto simp: map_le_def)

lemma resolve_src_frame: "resolve_src env r s = (x, s') \<Longrightarrow> frame s s' \<and> caches_grow s s'"
  by (auto simp: resolve_src_def call_storage_def frame_def caches_grow_def map_le_upd_fresh
      split: option.splits sum.splits)

lemma resolve_func_frame: "resolve_func env r src s = (x, s') \<Longrightarrow> frame s s' \<and> caches_grow s s'"
  by (auto simp: resolve_func_def call_storage_def frame_def caches_grow_def map_le_upd_fresh
      split: option.splits sum.splits)

lemma resolve_logger_frame: "resolve_logger env s = (x, s') \<Longrightarrow> frame s s' \<and> caches_grow s s'"
  by (auto simp: resolve_logger_def call_storage_def frame_def caches_grow_def map_le_upd_fresh
      split: option.splits sum.splits)

lemma resolve_host_frame: "resolve_host env h s = (x, s') \<Longrightarrow> frame s s' \<and> caches_grow s s'"
  by (auto simp: resolve_host_def call_storage_def frame_def caches_grow_def map_le_upd_fresh
      split: option.splits sum.splits)

lemma resolve_tag_frame: "resolve_tag env h s = (x, s') \<Longrightarrow> frame s s' \<and> caches_grow s s'"
  by (auto simp: resolve_tag_def call_storage_def frame_def caches_grow_def map_le_upd_fresh
      split: option.splits sum.splits)

lemma resolve_tags_frame: "resolve_tags env ts acc s = (x, s') \<Longrightarrow> frame s s' \<and> caches_grow s s'"
proof (induction ts arbitrary: acc s)
  case Nil then show ?case by simp
next
  case (Cons t ts)
  obtain y s1 where r: "resolve_tag env t s = (y, s1)" by (cases "resolve_tag env t s")
  note f1 = resolve_tag_frame [OF r]
  show ?case
  proof (cases y)
    case (Inl e)
    with Cons.prems r f1 show ?thesis by simp
  next
    case (Inr tag)
    with Cons.prems r have "resolve_tags env ts (acc @ [tag]) s1 = (x, s')" by simp
    from Cons.IH [OF this] f1 show ?thesis by (blast intro: frame_trans caches_grow_trans)
  qed
qed

lemma try_body_frame: "try_body env h r s = (x, s') \<Longrightarrow> frame s s' \<and> caches_grow s s'"
  unfolding try_body_def
  apply (auto split: prod.splits sum.splits
      dest!: resolve_src_frame resolve_func_frame resolve_logger_frame resolve_host_frame
             resolve_tags_frame call_storage_frame)
  apply (simp_all add: frame_def)
  apply (blast intro: caches_grow_trans)+
  done

lemma async_emit_cases:
  obtains (failed) e s' where
      "try_body env (gethostname env (length (handled s))) r (s\<lparr>handled := handled s @ [r]\<rparr>) = (Some e, s')"
      "async_emit env r s = handleError r s'" "raises env r s"
    | (completed) s' where
      "try_body env (gethostname env (length (handled s))) r (s\<lparr>handled := handled s @ [r]\<rparr>) = (None, s')"
      "async_emit env r s = s'\<lparr>written := written s' @ [r]\<rparr>" "\<not> raises env r s"
proof -
  obtain x s' where t: "try_body env (gethostname env (length (handled s))) r (s\<lparr>handled := handled s @ [r]\<rparr>) = (x, s')"
    by (cases "try_body env (gethostname env (length (handled s))) r (s\<lparr>handled := handled s @ [r]\<rparr>)")
  show thesis
  proof (cases x)
    case None
    with t show ?thesis by (intro completed[of s']) (simp_all add: async_emit_def raises_def)
  next
    case (Some e)
    with t show ?thesis by (intro failed[of e s']) (simp_all add: async_emit_def raises_def)
  qed
qed

lemma async_emit_handled: "handled (async_emit env r s) = handled s @ [r]"
  by (cases rule: async_emit_cases [of env s r])
     (auto dest!: try_body_frame simp: frame_def handleError_def)



lemma async_emit_unchanged:
  "db (async_emit env r s) = db s \<and> db_config (async_emit env r s) = db_config s
   \<and> queue (async_emit env r s) = queue s \<and> emitter (async_emit env r s) = emitter s
   \<and> logger_name (async_emit env r s) = logger_name s \<and> lock (async_emit env r s) = lock s
   \<and> tasks (async_emit env r s) = tasks s \<and> emits (async_emit env r s) = emits s"
  by (cases rule: async_emit_cases [of env s r])
     (auto dest!: try_body_frame simp: frame_def handleError_def)





lemma map_le_SomeD: "m \<subseteq>\<^sub>m m' \<Longrightarrow> m k = Some v \<Longrightarrow> m' k = Some v"
  by (metis domI map_le_def)

lemma resolve_src_cached: "resolve_src env r s = (Inr row, s1) \<Longrightarrow> src_cache s1 (pathname r) = Some row"
  by (auto simp: resolve_src_def call_storage_def split: option.splits sum.splits)

lemma resolve_func_cached: "resolve_func env r src s = (Inr row, s1) \<Longrightarrow> func_cache s1 (func_key r src) = Some row"
  by (auto simp: resolve_func_def call_storage_def split: option.splits sum.splits)

lemma resolve_logger_cached: "resolve_logger env s = (Inr row, s1) \<Longrightarrow> logger_cache s1 (logger_name s) = Some row \<and> logger_name s1 = logger_name s"
  by (auto simp: resolve_logger_def call_storage_def split: option.splits sum.splits)




lemma mem_goc: "\<exists>obj. mem_storage (h @ [GetOrCreate m kw]) = Inr obj"
  by (simp add: mem_storage_def)







lemma fst_snd_eq: "fst p = a \<Longrightarrow> p = (a, snd p)" by (cases p) simp


lemma try_body_NoneD:
  "try_body env h r s = (None, s') \<Longrightarrow>
   \<exists>src s1 func s2 logger s3 host s4 msg entry s5 tgs s6 x.
     resolve_src env r s = (Inr src, s1) \<and> resolve_func env r src s1 = (Inr func, s2)
     \<and> resolve_logger env s2 = (Inr logger, s3) \<and> resolve_host env h s3 = (Inr host, s4)
     \<and> getMessage r = Inr msg
     \<and> call_storage env (Create LogEntry (entry_kwargs r msg func logger host)) s4 = (Inr entry, s5)
     \<and> resolve_tags env (tags_names r) [] s5 = (Inr tgs, s6)
     \<and> call_storage env (AddTags entry tgs) s6 = (Inr x, s')"
  by (auto simp: try_body_def split: prod.splits sum.splits)

text \<open>
  Claim C6, as stated, fails: for a record whose own name is \<^verbatim>\<open>app.worker\<close>, handled by a
  sink configured with the logger name \<^verbatim>\<open>app\<close>, the function is cached under a key that
  starts with the record's name, while the logger is resolved under the sink's name.
\<close>

theorem function_key_counterexample:
  "name rec_b = ''app.worker'' \<and> logger_name handler0 = ''app''
   \<and> func_cache (async_emit env0 rec_b handler0) ''app.worker.g:7@/a.py'' = Some \<lparr>pk = 2, path = []\<rparr>
   \<and> func_cache (async_emit env0 rec_b handler0) ''app.g:7@/a.py'' = None
   \<and> logger_cache (async_emit env0 rec_b handler0) ''app'' = Some \<lparr>pk = 3, path = []\<rparr>
   \<and> logger_cache (async_emit env0 rec_b handler0) ''app.worker'' = None"
  by (simp add: async_emit_def try_body_def resolve_src_def resolve_func_def resolve_logger_def
      resolve_host_def tags_names_def call_storage_def func_key_def entry_kwargs_def
      env0_def mem_storage_def handler0_def init_def rec_b_def str_int_def str_nat.simps)

text \<open>
  Claim C6, amended: whenever a record is processed without an exception, the logger
  row is the one cached under the sink's configured logger name, and the function row is
  cached under the key made of the record's own name, the function name, the line and
  the path of the source row; that key carries the sink's logger name exactly when the
  record's name equals it.
\<close>

theorem function_key_from_record_name:
  assumes "try_body env h r s = (None, s')"
  shows "\<exists>src func logger.
           src_cache s' (pathname r) = Some src
           \<and> func_cache s' (name r @ ''.'' @ funcName r @ '':'' @ str_int (lineno r) @ ''@'' @ path src)
               = Some func
           \<and> logger_cache s' (logger_name s) = Some logger
           \<and> (name r @ ''.'' @ funcName r @ '':'' @ str_int (lineno r) @ ''@'' @ path src
                = logger_name s @ ''.'' @ funcName r @ '':'' @ str_int (lineno r) @ ''@'' @ path src
              \<longleftrightarrow> name r = logger_name s)"
proof -
  from try_body_NoneD [OF assms] obtain src s1 func s2 logger s3 host s4 msg entry s5 tgs s6 x
    where 1: "resolve_src env r s = (Inr src, s1)"
      and 2: "resolve_func env r src s1 = (Inr func, s2)"
      and 3: "resolve_logger env s2 = (Inr logger, s3)"
      and 4: "resolve_host env h s3 = (Inr host, s4)"
      and 5: "call_storage env (Create LogEntry (entry_kwargs r msg func logger host)) s4 = (Inr entry, s5)"
      and 6: "resolve_tags env (tags_names r) [] s5 = (Inr tgs, s6)"
      and 7: "call_storage env (AddTags entry tgs) s6 = (Inr x, s')"
    by blast
  have g34: "caches_grow s3 s4" using resolve_host_frame [OF 4] by simp
  have g45: "caches_grow s4 s5" using call_storage_frame [OF 5] by simp
  have g56: "caches_grow s5 s6" using resolve_tags_frame [OF 6] by simp
  have g67: "caches_grow s6 s'" using call_storage_frame [OF 7] by simp
  have g3: "caches_grow s3 s'" using g34 g45 g56 g67 by (blast intro: caches_grow_trans)
  have g2: "caches_grow s2 s'" using resolve_logger_frame [OF 3] g3 by (blast intro: caches_grow_trans)
  have g1: "caches_grow s1 s'" using resolve_func_frame [OF 2] g2 by (blast intro: caches_grow_trans)
  have n: "logger_name s2 = logger_name s"
    using resolve_src_frame [OF 1] resolve_func_frame [OF 2] by (simp add: frame_def)
  have a: "src_cache s' (pathname r) = Some src"
    using map_le_SomeD [of "src_cache s1" "src_cache s'", OF _ resolve_src_cached [OF 1]] g1 by (simp add: caches_grow_def)
  have b: "func_cache s' (func_key r src) = Some func"
    using map_le_SomeD [of "func_cache s2" "func_cache s'", OF _ resolve_func_cached [OF 2]] g2 by (simp add: caches_grow_def)
  have c: "logger_cache s' (logger_name s) = Some logger"
    using map_le_SomeD [of "logger_cache s3" "logger_cache s'" "logger_name s2" logger]
      resolve_logger_cached [OF 3] g3 n by (simp add: caches_grow_def)
  from a b c show ?thesis by (simp add: func_key_def)
qed

theorem function_key_from_record_name_witness:
  "try_body env0 ''web1'' rec_b handler0 = (None, snd (try_body env0 ''web1'' rec_b handler0))
   \<and> (\<exists>src func logger.
         src_cache (snd (try_body env0 ''web1'' rec_b handler0)) (pathname rec_b) = Some src
         \<and> func_cache (snd (try_body env0 ''web1'' rec_b handler0))
              (name rec_b @ ''.'' @ funcName rec_b @ '':'' @ str_int (lineno rec_b) @ ''@'' @ path src)
             = Some func
         \<and> logger_cache (snd (try_body env0 ''web1'' rec_b handler0)) (logger_name handler0) = Some logger
         \<and> (name rec_b @ ''.'' @ funcName rec_b @ '':'' @ str_int (lineno rec_b) @ ''@'' @ path src
              = logger_name handler0 @ ''.'' @ funcName rec_b @ '':'' @ str_int (lineno rec_b) @ ''@'' @ path src
             \<longleftrightarrow> name rec_b = logger_name handler0))"
proof -
  have f: "fst (try_body env0 ''web1'' rec_b handler0) = None"
    by (simp add: try_body_def resolve_src_def resolve_func_def resolve_logger_def
      resolve_host_def tags_names_def call_storage_def func_key_def entry_kwargs_def
      env0_def mem_storage_def handler0_def init_def rec_b_def str_int_def str_nat.simps)
  have h: "try_body env0 ''web1'' rec_b handler0 = (None, snd (try_body env0 ''web1'' rec_b handler0))"
    by (rule fst_snd_eq [OF f])
  from function_key_from_record_name [OF h] h show ?thesis by blast
qed

section \<open>Records without tags\<close>

lemma dim_not_tag [simp]: "list_all is_dim_call cs \<Longrightarrow> list_all (\<lambda>c. \<not> is_tag_call c) cs"
  by (induction cs) (auto elim: is_dim_call.elims)

lemma call_storage_calls: "call_storage env c s = (x, s') \<Longrightarrow> calls s' = calls s @ [c] \<and> tag_cache s' = tag_cache s"
  by (auto simp: call_storage_def)

lemma resolve_dim_calls:
  "resolve_src env r s = (x, s') \<Longrightarrow>
     tag_cache s' = tag_cache s \<and> (\<exists>cs. calls s' = calls s @ cs \<and> list_all is_dim_call cs)"
  "resolve_func env r src s = (x, s') \<Longrightarrow>
     tag_cache s' = tag_cache s \<and> (\<exists>cs. calls s' = calls s @ cs \<and> list_all is_dim_call cs)"
  "resolve_logger env s = (x, s') \<Longrightarrow>
     tag_cache s' = tag_cache s \<and> (\<exists>cs. calls s' = calls s @ cs \<and> list_all is_dim_call cs)"
  "resolve_host env k s = (x, s') \<Longrightarrow>
     tag_cache s' = tag_cache s \<and> (\<exists>cs. calls s' = calls s @ cs \<and> list_all is_dim_call cs)"
  by (auto simp: resolve_src_def resolve_func_def resolve_logger_def resolve_host_def
      call_storage_def split: option.splits sum.splits)

lemma try_body_tags_irrelevant:
  "tags_names r' = tags_names r \<Longrightarrow> pathname r' = pathname r \<Longrightarrow> name r' = name r \<Longrightarrow>
   funcName r' = funcName r \<Longrightarrow> lineno r' = lineno r \<Longrightarrow> levelno r' = levelno r \<Longrightarrow>
   getMessage r' = getMessage r \<Longrightarrow> process r' = process r \<Longrightarrow> created r' = created r \<Longrightarrow>
   try_body env h r' s = try_body env h r s"
  by (simp add: try_body_def resolve_src_def resolve_func_def func_key_def entry_kwargs_def
      cong: option.case_cong sum.case_cong prod.case_cong)

lemma try_body_no_tags_calls:
  assumes t: "tags r = None" and b: "try_body env h r s = (x, s')"
  shows "tag_cache s' = tag_cache s
     \<and> (\<exists>cs. calls s' = calls s @ cs \<and> list_all (\<lambda>c. \<not> is_tag_call c) cs)
     \<and> (x = None \<longrightarrow> (\<exists>cs msg func logger host entry. list_all is_dim_call cs \<and> getMessage r = Inr msg
           \<and> calls s' = calls s @ cs
                          @ [Create LogEntry (entry_kwargs r msg func logger host), AddTags entry []]))"
proof -
  have tn: "tags_names r = []" using t by (simp add: tags_names_def)
  obtain x1 s1 where 1: "resolve_src env r s = (x1, s1)" by (cases "resolve_src env r s")
  from resolve_dim_calls(1) [OF 1] obtain c1 where
    c1: "tag_cache s1 = tag_cache s" "calls s1 = calls s @ c1" "list_all is_dim_call c1" by blast
  show ?thesis
  proof (cases x1)
    case (Inl e)
    with b 1 c1 show ?thesis by (auto simp: try_body_def)
  next
    case (Inr src)
    obtain x2 s2 where 2: "resolve_func env r src s1 = (x2, s2)" by (cases "resolve_func env r src s1")
    from resolve_dim_calls(2) [OF 2] obtain c2 where
      c2: "tag_cache s2 = tag_cache s1" "calls s2 = calls s1 @ c2" "list_all is_dim_call c2" by blast
    show ?thesis
    proof (cases x2)
      case (Inl e)
      with b 1 2 Inr c1 c2 show ?thesis
        by (auto simp: try_body_def intro!: exI [of _ "c1 @ c2"])
    next
      case (Inr func)
      note src = \<open>x1 = Inr src\<close>
      obtain x3 s3 where 3: "resolve_logger env s2 = (x3, s3)" by (cases "resolve_logger env s2")
      from resolve_dim_calls(3) [OF 3] obtain c3 where
        c3: "tag_cache s3 = tag_cache s2" "calls s3 = calls s2 @ c3" "list_all is_dim_call c3" by blast
      show ?thesis
      proof (cases x3)
        case (Inl e)
        with b 1 2 3 src Inr c1 c2 c3 show ?thesis
          by (auto simp: try_body_def intro!: exI [of _ "c1 @ c2 @ c3"])
      next
        case (Inr logger)
        note func = \<open>x2 = Inr func\<close>
        obtain x4 s4 where 4: "resolve_host env h s3 = (x4, s4)" by (cases "resolve_host env h s3")
        from resolve_dim_calls(4) [OF 4] obtain c4 where
          c4: "tag_cache s4 = tag_cache s3" "calls s4 = calls s3 @ c4" "list_all is_dim_call c4" by blast
        let ?cs = "c1 @ c2 @ c3 @ c4"
        have cs: "list_all is_dim_call ?cs" "calls s4 = calls s @ ?cs" "tag_cache s4 = tag_cache s"
          using c1 c2 c3 c4 by simp_all
        show ?thesis
        proof (cases x4)
          case (Inl e)
          with b 1 2 3 4 src func Inr cs show ?thesis
            by (auto simp: try_body_def intro!: exI [of _ ?cs])
        next
          case (Inr host)
          note logger = \<open>x3 = Inr logger\<close>
          show ?thesis
          proof (cases "getMessage r")
            case (Inl e)
            with b 1 2 3 4 src func logger Inr cs show ?thesis
              by (auto simp: try_body_def intro!: exI [of _ ?cs])
          next
            case (Inr msg)
            note host = \<open>x4 = Inr host\<close>
            let ?c = "Create LogEntry (entry_kwargs r msg func logger host)"
            obtain x5 s5 where 5: "call_storage env ?c s4 = (x5, s5)"
              by (cases "call_storage env ?c s4")
            note k5 = call_storage_calls [OF 5]
            show ?thesis
            proof (cases x5)
              case (Inl e)
              with b 1 2 3 4 5 src func logger host Inr cs k5 show ?thesis
                by (auto simp: try_body_def intro!: exI [of _ ?cs])
            next
              case (Inr entry)
              note msg = \<open>getMessage r = Inr msg\<close>
              obtain x7 s7 where 7: "call_storage env (AddTags entry []) s5 = (x7, s7)"
                by (cases "call_storage env (AddTags entry []) s5")
              note k7 = call_storage_calls [OF 7]
              have st: "x7 = storage env (calls s7)" using 7 by (auto simp: call_storage_def)
              have fin: "(x, s') = (case x7 of Inl e \<Rightarrow> (Some e, s7) | Inr _ \<Rightarrow> (None, s7))"
                using b 1 2 3 4 5 7 src func logger host msg Inr tn
                by (simp add: try_body_def)
              have cl: "calls s7 = calls s @ ?cs @ [?c, AddTags entry []]" "tag_cache s7 = tag_cache s"
                using k5 k7 cs by simp_all
              show ?thesis
              proof (cases x7)
                case (Inl e)
                with fin have "x = Some e" "s' = s7" by simp_all
                with cl cs msg st Inl show ?thesis by auto
              next
                case (Inr y)
                with fin have "x = None" "s' = s7" by simp_all
                with cl cs msg show ?thesis by auto
              qed
            qed
          qed
        qed
      qed
    qed
  qed
qed

text \<open>
  Claim C10, as stated, fails in one point: the entry of a record without a \<^verbatim>\<open>tags\<close>
  attribute is created, but with three dimension ids (function, logger and host), not
  four: the id of the source row (here 1) is given to the function row only.
\<close>

theorem entry_dimension_ids_counterexample:
  "calls (async_emit env0 rec_b handler0)
     = [GetOrCreate LogSource [(''path'', PyStr ''/a.py'')],
        GetOrCreate LogFunction
          [(''name'', PyStr ''app.worker.g''), (''line_number'', PyInt 7), (''source_id'', PyInt 1)],
        GetOrCreate LogLogger [(''name'', PyStr ''app'')],
        GetOrCreate LogHost [(''name'', PyStr ''web1'')],
        Create LogEntry
          [(''level'', PyInt 30), (''message'', PyStr ''stopped''), (''pid'', PyInt 4242),
           (''time'', PyInt 1002), (''function_id'', PyInt 2), (''logger_id'', PyInt 3),
           (''hostname_id'', PyInt 4)],
        AddTags \<lparr>pk = 5, path = []\<rparr> []]"
  by (simp add: async_emit_def try_body_def resolve_src_def resolve_func_def resolve_logger_def
      resolve_host_def tags_names_def call_storage_def func_key_def entry_kwargs_def
      env0_def mem_storage_def handler0_def init_def rec_b_def)

text \<open>
  Claim C10, amended: a record that lacks the \<^verbatim>\<open>tags\<close> attribute is processed exactly
  like the same record with an empty tag set; no tag is resolved or cached and no
  get-or-create of a tag reaches storage; and when processing ends without an exception,
  the last two storage calls are the creation of the entry, with the ids of the function,
  the logger and the host, and the tag association with the empty list.
\<close>

theorem record_without_tags:
  assumes "tags r = None"
  shows "try_body env h r s = try_body env h (r\<lparr>tags := Some []\<rparr>) s
     \<and> tag_cache (snd (try_body env h r s)) = tag_cache s
     \<and> (\<exists>cs. calls (snd (try_body env h r s)) = calls s @ cs
               \<and> list_all (\<lambda>c. \<not> is_tag_call c) cs)
     \<and> (fst (try_body env h r s) = None \<longrightarrow>
          (\<exists>cs msg func logger host entry.
             list_all is_dim_call cs \<and> getMessage r = Inr msg
             \<and> map fst (entry_kwargs r msg func logger host)
                 = [''level'', ''message'', ''pid'', ''time'',
                    ''function_id'', ''logger_id'', ''hostname_id'']
             \<and> calls (snd (try_body env h r s))
                 = calls s @ cs @ [Create LogEntry (entry_kwargs r msg func logger host),
                                   AddTags entry []]))"
proof -
  have a: "try_body env h (r\<lparr>tags := Some []\<rparr>) s = try_body env h r s"
    using assms by (intro try_body_tags_irrelevant) (simp_all add: tags_names_def)
  obtain x s' where b: "try_body env h r s = (x, s')" by (cases "try_body env h r s")
  have k: "\<And>msg func logger host. map fst (entry_kwargs r msg func logger host)
                 = [''level'', ''message'', ''pid'', ''time'',
                    ''function_id'', ''logger_id'', ''hostname_id'']"
    by (simp add: entry_kwargs_def)
  from try_body_no_tags_calls [OF assms b] a b k show ?thesis
    by (simp only: fst_conv snd_conv) blast
qed

theorem record_without_tags_witness:
  "tags rec_b = None
   \<and> try_body env0 ''web1'' rec_b handler0 = try_body env0 ''web1'' (rec_b\<lparr>tags := Some []\<rparr>) handler0
   \<and> tag_cache (snd (try_body env0 ''web1'' rec_b handler0)) = tag_cache handler0
   \<and> fst (try_body env0 ''web1'' rec_b handler0) = None
   \<and> (\<exists>cs msg func logger host entry.
         list_all is_dim_call cs \<and> getMessage rec_b = Inr msg
         \<and> calls (snd (try_body env0 ''web1'' rec_b handler0))
             = calls handler0 @ cs @ [Create LogEntry (entry_kwargs rec_b msg func logger host),
                                      AddTags entry []])"
proof -
  have t: "tags rec_b = None" by (simp add: rec_b_def)
  have f: "fst (try_body env0 ''web1'' rec_b handler0) = None"
    by (simp add: try_body_def resolve_src_def resolve_func_def resolve_logger_def
      resolve_host_def tags_names_def call_storage_def func_key_def entry_kwargs_def
      env0_def mem_storage_def handler0_def init_def rec_b_def)
  from record_without_tags [OF t, of env0 "''web1''" handler0] t f show ?thesis by blast
qed

section \<open>The lock and the flag in every reachable state\<close>

lemma step_EmitE:
  assumes "step env (Emit j) s = Some s'"
  obtains t r pc pc' s1 where "j < length (emits s)" "emits s ! j = (t, r, pc)"
    "others_idle s t (Some j) None" "emit_step env t r pc s = Some (pc', s1)"
    "s' = s1\<lparr>emits := (emits s1)[j := (t, r, pc')]\<rparr>"
  using assms by (auto split: if_splits prod.splits option.splits)

lemma step_DrainE:
  assumes "step env (Drain i) s = Some s'"
  obtains t pc pc' s1 where "i < length (tasks s)" "tasks s ! i = (t, pc)"
    "others_idle s t None (Some i)" "drain_step env t pc s = Some (pc', s1)"
    "s' = s1\<lparr>tasks := (tasks s1)[i := (t, pc')]\<rparr>"
  using assms by (auto split: if_splits prod.splits option.splits)

lemma filter_update_count:
  "j < length xs \<Longrightarrow>
   length (filter P (xs[j := y])) + (if P (xs ! j) then 1 else 0)
     = length (filter P xs) + (if P y then 1 else 0)"
proof (induction xs arbitrary: j)
  case Nil then show ?case by simp
next
  case (Cons x xs)
  show ?case
  proof (cases j)
    case 0 then show ?thesis by simp
  next
    case (Suc k)
    with Cons.prems have "k < length xs" by simp
    from Cons.IH [OF this] Suc show ?thesis by simp
  qed
qed

lemma filter_none: "length (filter P xs) = 0 \<Longrightarrow> j < length xs \<Longrightarrow> \<not> P (xs ! j)"
  by (metis filter_empty_conv length_0_conv nth_mem)


lemma filter_update_same:
  "j < length xs \<Longrightarrow> P (xs ! j) = P y \<Longrightarrow> length (filter P (xs[j := y])) = length (filter P xs)"
  using filter_update_count [of j xs P y] by simp

lemma filter_update_gain:
  "j < length xs \<Longrightarrow> \<not> P (xs ! j) \<Longrightarrow> P y \<Longrightarrow> length (filter P (xs[j := y])) = Suc (length (filter P xs))"
  using filter_update_count [of j xs P y] by simp

lemma filter_update_lose:
  "j < length xs \<Longrightarrow> P (xs ! j) \<Longrightarrow> \<not> P y \<Longrightarrow> Suc (length (filter P (xs[j := y]))) = length (filter P xs)"
  using filter_update_count [of j xs P y] by simp

lemma holders_emit_same:
  "j < length (emits s) \<Longrightarrow> holds_e (snd (snd (emits s ! j))) = holds_e pc' \<Longrightarrow> emits s1 = emits s \<Longrightarrow> tasks s1 = tasks s \<Longrightarrow>
   holders (s1\<lparr>emits := (emits s)[j := (t, r, pc')]\<rparr>) = holders s"
  by (simp add: holders_def filter_update_same)

lemma holders_emit_gain:
  "j < length (emits s) \<Longrightarrow> \<not> holds_e (snd (snd (emits s ! j))) \<Longrightarrow> holds_e pc' \<Longrightarrow> emits s1 = emits s \<Longrightarrow> tasks s1 = tasks s \<Longrightarrow>
   holders (s1\<lparr>emits := (emits s)[j := (t, r, pc')]\<rparr>) = Suc (holders s)"
  by (simp add: holders_def filter_update_gain)

lemma holders_emit_lose:
  "j < length (emits s) \<Longrightarrow> holds_e (snd (snd (emits s ! j))) \<Longrightarrow> \<not> holds_e pc' \<Longrightarrow> emits s1 = emits s \<Longrightarrow> tasks s1 = tasks s \<Longrightarrow>
   Suc (holders (s1\<lparr>emits := (emits s)[j := (t, r, pc')]\<rparr>)) = holders s"
  using filter_update_lose [of j "emits s" "\<lambda>x. holds_e (snd (snd x))" "(t, r, pc')"]
  by (simp add: holders_def)

lemma holders_zero_e: "holders s = 0 \<Longrightarrow> j < length (emits s) \<Longrightarrow> \<not> holds_e (e_pc s j)"
  unfolding holders_def e_pc_def using filter_none [of "\<lambda>x. holds_e (snd (snd x))" "emits s" j] by simp

lemma holders_zero_d: "holders s = 0 \<Longrightarrow> i < length (tasks s) \<Longrightarrow> \<not> holds_d (d_pc s i)"
  unfolding holders_def d_pc_def using filter_none [of "\<lambda>x. holds_d (snd x)" "tasks s" i] by simp

lemma hz_e: "holders s = 0 \<Longrightarrow> j < length (emits s) \<Longrightarrow> holds_e (snd (snd (emits s ! j))) \<Longrightarrow> False"
  using holders_zero_e [of s j] by (simp add: e_pc_def)

lemma hz_d: "holders s = 0 \<Longrightarrow> i < length (tasks s) \<Longrightarrow> holds_d (snd (tasks s ! i)) \<Longrightarrow> False"
  using holders_zero_d [of s i] by (simp add: d_pc_def)

lemmas inv_unfold = lock_ok_def e_pc_def e_tid_def d_pc_def d_tid_def nth_list_update

lemma lock_ok_emit:
  assumes inv: "lock_ok s" and st: "step env (Emit j) s = Some s'"
  shows "lock_ok s'"
proof -
  from st obtain t r pc pc' s1 where j: "j < length (emits s)" and ej: "emits s ! j = (t, r, pc)"
    and idle: "others_idle s t (Some j) None" and es: "emit_step env t r pc s = Some (pc', s1)"
    and s': "s' = s1\<lparr>emits := (emits s1)[j := (t, r, pc')]\<rparr>"
    by (rule step_EmitE)
  show ?thesis
  proof (cases pc)
    case L58
    with es inv j ej s' show ?thesis
      by (auto simp: acquire_def inv_unfold holders_emit_gain split: option.splits if_splits
          dest: hz_e hz_d)
  next
    case L59
    with es inv j ej s' show ?thesis
      by (auto simp: inv_unfold holders_emit_same split: option.splits if_splits)
  next
    case L61
    with es inv j ej s' show ?thesis
      by (auto simp: inv_unfold holders_emit_same split: option.splits if_splits)
  next
    case L62
    with es inv j ej s' show ?thesis
      by (auto simp: inv_unfold holders_emit_same split: option.splits if_splits)
  next
    case L63
    from L63 inv j ej obtain n where lk: "lock s = Some (t, n)" "0 < n" "holders s = n"
      by (auto simp: inv_unfold split: option.splits dest: hz_e)
    from L63 es have s1: "pc' = L64"
      "s1 = s\<lparr>tasks := tasks s @ [(t, L67)], emitter := Some (length (tasks s))\<rparr>"
      by auto
    have h: "holders s' = holders s"
      unfolding s' s1 using j ej L63 by (simp add: holders_def filter_update_same)
    with lk inv s' s1 j ej L63 show ?thesis
      by (auto simp: inv_unfold nth_append split: option.splits if_splits)
  next
    case L64
    from L64 inv j ej obtain n where lk: "lock s = Some (t, n)" "0 < n" "holders s = n"
      by (auto simp: inv_unfold split: option.splits dest: hz_e)
    from lk L64 es have s1: "pc' = Returned" "s1 = s\<lparr>lock := (if n \<le> 1 then None else Some (t, n - 1))\<rparr>"
      by (auto simp: release_def)
    have h: "Suc (holders s') = holders s"
      unfolding s' s1 using holders_emit_lose [of j s Returned s1 t r] j ej s1 L64 by simp
    with lk inv s' s1 j ej show ?thesis
      by (auto simp: inv_unfold split: option.splits if_splits)
  next
    case Returned
    with es show ?thesis by simp
  next
    case (Raised n e)
    with es show ?thesis by simp
  qed
qed


lemma holders_task_upd:
  "i < length (tasks s) \<Longrightarrow> emits s1 = emits s \<Longrightarrow> tasks s1 = tasks s \<Longrightarrow>
   holders (s1\<lparr>tasks := (tasks s)[i := (t, pc')]\<rparr>) + (if holds_d (snd (tasks s ! i)) then 1 else 0)
     = holders s + (if holds_d pc' then 1 else 0)"
  using filter_update_count [of i "tasks s" "\<lambda>x. holds_d (snd x)" "(t, pc')"]
  by (simp add: holders_def)

lemma lock_ok_task_same:
  assumes inv: "lock_ok s" and i: "i < length (tasks s)" and ti: "tasks s ! i = (t, pc)"
    and same: "holds_d pc' = holds_d pc"
    and s1: "emits s1 = emits s" "tasks s1 = tasks s" "lock s1 = lock s"
  shows "lock_ok (s1\<lparr>tasks := (tasks s1)[i := (t, pc')]\<rparr>)"
proof -
  have h: "holders (s1\<lparr>tasks := (tasks s1)[i := (t, pc')]\<rparr>) = holders s"
    using holders_task_upd [of i s s1 t pc'] i ti same s1 by simp
  with inv i ti same s1 show ?thesis
    by (auto simp: inv_unfold split: option.splits if_splits)
qed

lemma lock_ok_task_acquire:
  assumes inv: "lock_ok s" and i: "i < length (tasks s)" and ti: "tasks s ! i = (t, pc)"
    and pcs: "\<not> holds_d pc" "holds_d pc'"
    and acq: "acquire t s = Some s1"
  shows "lock_ok (s1\<lparr>tasks := (tasks s1)[i := (t, pc')]\<rparr>)"
proof -
  from acq have s1: "emits s1 = emits s" "tasks s1 = tasks s"
    by (auto simp: acquire_def split: option.splits if_splits)
  have h: "holders (s1\<lparr>tasks := (tasks s1)[i := (t, pc')]\<rparr>) = Suc (holders s)"
    using holders_task_upd [of i s s1 t pc'] i ti pcs s1 by simp
  with inv i ti pcs acq show ?thesis
    by (auto simp: acquire_def inv_unfold split: option.splits if_splits dest: hz_e hz_d)
qed

lemma lock_ok_task_release:
  assumes inv: "lock_ok s" and i: "i < length (tasks s)" and ti: "tasks s ! i = (t, pc)"
    and pcs: "holds_d pc" "\<not> holds_d pc'"
  shows "\<exists>s1. release t s = Inr s1 \<and> lock_ok (s1\<lparr>tasks := (tasks s1)[i := (t, pc')]\<rparr>)"
proof -
  from inv i ti pcs obtain n where lk: "lock s = Some (t, n)" "0 < n" "holders s = n"
    by (auto simp: inv_unfold split: option.splits dest: hz_d)
  define s1 where "s1 = s\<lparr>lock := (if n \<le> 1 then None else Some (t, n - 1))\<rparr>"
  have r: "release t s = Inr s1" using lk by (simp add: release_def s1_def)
  have h: "Suc (holders (s1\<lparr>tasks := (tasks s1)[i := (t, pc')]\<rparr>)) = holders s"
    using holders_task_upd [of i s s1 t pc'] i ti pcs by (simp add: s1_def)
  with lk inv i ti pcs have "lock_ok (s1\<lparr>tasks := (tasks s1)[i := (t, pc')]\<rparr>)"
    by (auto simp: inv_unfold s1_def split: option.splits if_splits)
  with r show ?thesis by blast
qed

lemma lock_ok_drain:
  assumes inv: "lock_ok s" and st: "step env (Drain i) s = Some s'"
  shows "lock_ok s'"
proof -
  from st obtain t pc pc' s1 where i: "i < length (tasks s)" and ti: "tasks s ! i = (t, pc)"
    and idle: "others_idle s t None (Some i)" and ds: "drain_step env t pc s = Some (pc', s1)"
    and s': "s' = s1\<lparr>tasks := (tasks s1)[i := (t, pc')]\<rparr>"
    by (rule step_DrainE)
  note same = lock_ok_task_same [OF inv i ti, of pc' s1, folded s']
  note acq = lock_ok_task_acquire [OF inv i ti, of pc' s1, folded s']
  note rel = lock_ok_task_release [OF inv i ti]
  show ?thesis
  proof (cases pc)
    case L67 with ds show ?thesis by (intro same) (auto split: if_splits)
  next
    case L70 with ds show ?thesis by (intro acq) auto
  next
    case L71 with ds show ?thesis by (intro same) auto
  next
    case (L71_await x) with ds show ?thesis by (cases x; intro same) auto
  next
    case L72
    with rel [of L74] obtain s2 where "release t s = Inr s2" "lock_ok (s2\<lparr>tasks := (tasks s2)[i := (t, L74)]\<rparr>)" by auto
    with ds L72 s' show ?thesis by auto
  next
    case L74 with ds show ?thesis by (intro same) (auto split: if_splits)
  next
    case L75 with ds show ?thesis by (intro acq) auto
  next
    case L76 with ds show ?thesis by (intro same) auto
  next
    case (L77 q) with ds show ?thesis by (intro same) auto
  next
    case (L78 q)
    with rel [of "L80 q"] obtain s2 where "release t s = Inr s2" "lock_ok (s2\<lparr>tasks := (tasks s2)[i := (t, L80 q)]\<rparr>)" by auto
    with ds L78 s' show ?thesis by auto
  next
    case (L80 q) with ds show ?thesis by (cases q; intro same) auto
  next
    case (L81_await r q) with ds show ?thesis by (intro same) (auto simp: async_emit_unchanged)
  next
    case L83 with ds show ?thesis by (intro same) auto
  next
    case Finished with ds show ?thesis by simp
  next
    case (Failed n e) with ds show ?thesis by simp
  qed
qed

lemma drain_step_active: "drain_step env t pc s = Some (pc', s1) \<Longrightarrow> active_d pc"
  by (cases pc) auto

lemma drain_step_frame:
  "drain_step env t pc s = Some (pc', s1) \<Longrightarrow>
   emits s1 = emits s \<and> tasks s1 = tasks s \<and> (pc \<noteq> L83 \<longrightarrow> emitter s1 = emitter s)
   \<and> (pc = L83 \<longrightarrow> emitter s1 = None \<and> pc' = Finished)"
  by (cases "(env, t, pc, s)" rule: drain_step.cases)
     (auto simp: acquire_def release_def async_emit_unchanged split: option.splits if_splits sum.splits)

lemma flag_okD1:
  "flag_ok s \<Longrightarrow> i < length (tasks s) \<Longrightarrow> active_d (d_pc s i) \<or> holds_d (d_pc s i) \<Longrightarrow> emitter s = Some i"
  unfolding flag_ok_def by blast

lemma flag_okD2:
  "flag_ok s \<Longrightarrow> j < length (emits s) \<Longrightarrow> e_pc s j = L62 \<or> e_pc s j = L63 \<Longrightarrow> emitter s = None"
  unfolding flag_ok_def by blast

lemma flag_ok_drain:
  assumes inv: "flag_ok s" and st: "step env (Drain i) s = Some s'"
  shows "flag_ok s'"
proof -
  from st obtain t pc pc' s1 where i: "i < length (tasks s)" and ti: "tasks s ! i = (t, pc)"
    and ds: "drain_step env t pc s = Some (pc', s1)"
    and s': "s' = s1\<lparr>tasks := (tasks s1)[i := (t, pc')]\<rparr>"
    by (rule step_DrainE)
  note fr = drain_step_frame [OF ds]
  note act = drain_step_active [OF ds]
  from flag_okD1 [OF inv i] ti act have em: "emitter s = Some i" by (simp add: d_pc_def)
  have ts: "tasks s' = (tasks s)[i := (t, pc')]" using s' fr by simp
  have es: "emits s' = emits s" using s' fr by simp
  have ems: "emitter s' = (if pc = L83 then None else emitter s)" using s' fr by simp
  have fin: "pc = L83 \<Longrightarrow> pc' = Finished" using fr by simp
  show ?thesis
    unfolding flag_ok_def
  proof (intro conjI allI impI)
    fix k assume k: "k < length (tasks s')" and a: "active_d (d_pc s' k) \<or> holds_d (d_pc s' k)"
    show "emitter s' = Some k"
    proof (cases "k = i")
      case True
      with a ts i have "active_d pc' \<or> holds_d pc'" by (simp add: d_pc_def)
      with fin have "pc \<noteq> L83" by auto
      with ems em True show ?thesis by simp
    next
      case False
      with a ts have "active_d (d_pc s k) \<or> holds_d (d_pc s k)" by (simp add: d_pc_def)
      with flag_okD1 [OF inv, of k] k ts have "emitter s = Some k" by simp
      with em False show ?thesis by simp
    qed
  next
    fix j assume j: "j < length (emits s')" and a: "e_pc s' j = L62 \<or> e_pc s' j = L63"
    from a es have "e_pc s j = L62 \<or> e_pc s j = L63" by (simp add: e_pc_def)
    with flag_okD2 [OF inv, of j] j es have "emitter s = None" by simp
    with em show "emitter s' = None" by simp
  qed
qed

lemma flag_ok_emit_plain:
  assumes inv: "flag_ok s" and j: "j < length (emits s)"
    and es: "emits s' = (emits s)[j := (t, r, pc')]" and ts: "tasks s' = tasks s"
    and em: "emitter s' = emitter s"
    and new: "pc' = L62 \<or> pc' = L63 \<Longrightarrow> emitter s = None"
  shows "flag_ok s'"
  unfolding flag_ok_def
proof (intro conjI allI impI)
  fix i assume "i < length (tasks s')" "active_d (d_pc s' i) \<or> holds_d (d_pc s' i)"
  with ts have "i < length (tasks s)" "active_d (d_pc s i) \<or> holds_d (d_pc s i)"
    by (simp_all add: d_pc_def)
  from flag_okD1 [OF inv this] em show "emitter s' = Some i" by simp
next
  fix k assume k: "k < length (emits s')" and a: "e_pc s' k = L62 \<or> e_pc s' k = L63"
  show "emitter s' = None"
  proof (cases "k = j")
    case True
    with a es j have "pc' = L62 \<or> pc' = L63" by (simp add: e_pc_def)
    from new [OF this] em show ?thesis by simp
  next
    case False
    with a es have "e_pc s k = L62 \<or> e_pc s k = L63" by (simp add: e_pc_def)
    with flag_okD2 [OF inv, of k] k es em show ?thesis by simp
  qed
qed

lemma emit_step_plain:
  "emit_step env t r pc s = Some (pc', s1) \<Longrightarrow> pc \<noteq> L63 \<Longrightarrow>
   emits s1 = emits s \<and> tasks s1 = tasks s \<and> emitter s1 = emitter s
   \<and> (pc' = L63 \<longrightarrow> pc = L62) \<and> (pc' = L62 \<longrightarrow> pc = L61 \<and> emitter s = None)"
  by (cases pc) (auto simp: acquire_def release_def split: option.splits if_splits sum.splits)

lemma flag_ok_emit:
  assumes inv: "flag_ok s" and lk: "lock_ok s" and st: "step env (Emit j) s = Some s'"
  shows "flag_ok s'"
proof -
  from st obtain t r pc pc' s1 where j: "j < length (emits s)" and ej: "emits s ! j = (t, r, pc)"
    and idle: "others_idle s t (Some j) None" and es: "emit_step env t r pc s = Some (pc', s1)"
    and s': "s' = s1\<lparr>emits := (emits s1)[j := (t, r, pc')]\<rparr>"
    by (rule step_EmitE)
  show ?thesis
  proof (cases pc)
    case L63
    from flag_okD2 [OF inv j] ej L63 have em: "emitter s = None" by (simp add: e_pc_def)
    from lk j ej L63 obtain n where l: "lock s = Some (t, n)"
      by (auto simp: inv_unfold split: option.splits dest: hz_e)
    have others: "e_pc s k \<noteq> L62 \<and> e_pc s k \<noteq> L63" if k: "k < length (emits s)" "k \<noteq> j" for k
    proof -
      { assume a: "e_pc s k = L62 \<or> e_pc s k = L63"
        then have h: "holds_e (e_pc s k)" "running_e (e_pc s k)" by auto
        with lk l k have "e_tid s k = t" by (auto simp: lock_ok_def)
        with idle k h have False by (auto simp: others_idle_def e_pc_def e_tid_def) }
      then show ?thesis by blast
    qed
    from L63 es have s1: "pc' = L64"
      "s1 = s\<lparr>tasks := tasks s @ [(t, L67)], emitter := Some (length (tasks s))\<rparr>" by auto
    show ?thesis
      unfolding flag_ok_def
    proof (intro conjI allI impI)
      fix i assume i: "i < length (tasks s')" and a: "active_d (d_pc s' i) \<or> holds_d (d_pc s' i)"
      show "emitter s' = Some i"
      proof (cases "i < length (tasks s)")
        case True
        with a s' s1 have "active_d (d_pc s i) \<or> holds_d (d_pc s i)" by (simp add: d_pc_def nth_append)
        with flag_okD1 [OF inv True] em show ?thesis by simp
      next
        case False
        with i s' s1 show ?thesis by simp
      qed
    next
      fix k assume k: "k < length (emits s')" and a: "e_pc s' k = L62 \<or> e_pc s' k = L63"
      with s' s1 others [of k] j show "emitter s' = None"
        by (cases "k = j") (auto simp: e_pc_def nth_list_update)
    qed
  next
    case other: L58
    from emit_step_plain [OF es] other have p: "emits s1 = emits s" "tasks s1 = tasks s"
      "emitter s1 = emitter s" "pc' \<noteq> L62" "pc' \<noteq> L63" by auto
    show ?thesis by (rule flag_ok_emit_plain [OF inv j, of s' t r pc']) (use p s' in auto)
  next
    case other: L59
    from emit_step_plain [OF es] other have p: "emits s1 = emits s" "tasks s1 = tasks s"
      "emitter s1 = emitter s" "pc' \<noteq> L62" "pc' \<noteq> L63" by auto
    show ?thesis by (rule flag_ok_emit_plain [OF inv j, of s' t r pc']) (use p s' in auto)
  next
    case other: L61
    from emit_step_plain [OF es] other have p: "emits s1 = emits s" "tasks s1 = tasks s"
      "emitter s1 = emitter s" "pc' = L62 \<longrightarrow> emitter s = None" "pc' \<noteq> L63" by auto
    show ?thesis by (rule flag_ok_emit_plain [OF inv j, of s' t r pc']) (use p s' in auto)
  next
    case other: L62
    from flag_okD2 [OF inv j] ej other have n: "emitter s = None" by (simp add: e_pc_def)
    from emit_step_plain [OF es] other have p: "emits s1 = emits s" "tasks s1 = tasks s"
      "emitter s1 = emitter s" by auto
    show ?thesis by (rule flag_ok_emit_plain [OF inv j, of s' t r pc']) (use p n s' in auto)
  next
    case other: L64
    from emit_step_plain [OF es] other have p: "emits s1 = emits s" "tasks s1 = tasks s"
      "emitter s1 = emitter s" "pc' \<noteq> L62" "pc' \<noteq> L63" by auto
    show ?thesis by (rule flag_ok_emit_plain [OF inv j, of s' t r pc']) (use p s' in auto)
  next
    case Returned
    with es show ?thesis by simp
  next
    case (Raised n e)
    with es show ?thesis by simp
  qed
qed

lemma invariant_step: "invariant s \<Longrightarrow> step env a s = Some s' \<Longrightarrow> invariant s'"
  unfolding invariant_def
  by (cases a) (blast intro: lock_ok_emit lock_ok_drain flag_ok_emit flag_ok_drain)+

lemma invariant_run: "invariant s \<Longrightarrow> run env sched s = Some s' \<Longrightarrow> invariant s'"
proof (induction sched arbitrary: s)
  case Nil then show ?case by simp
next
  case (Cons a sched)
  from Cons.prems(2) obtain s1 where 1: "step env a s = Some s1" and 2: "run env sched s1 = Some s'"
    by (auto split: option.splits)
  from invariant_step [OF Cons.prems(1) 1] have "invariant s1" .
  from Cons.IH [OF this 2] show ?case .
qed

lemma invariant_init: "invariant (with_emits invs (init nm dbn u p h port))"
  by (auto simp: invariant_def lock_ok_def flag_ok_def holders_def with_emits_def init_def e_pc_def
      split: prod.splits)

section \<open>One activity per thread, one draining task\<close>

lemma idleD_e:
  "others_idle s t je jd \<Longrightarrow> k < length (emits s) \<Longrightarrow> Some k \<noteq> je \<Longrightarrow> e_tid s k = t \<Longrightarrow>
   \<not> running_e (e_pc s k)"
  unfolding others_idle_def e_tid_def e_pc_def by blast

lemma idleD_d:
  "others_idle s t je jd \<Longrightarrow> i < length (tasks s) \<Longrightarrow> Some i \<noteq> jd \<Longrightarrow> d_tid s i = t \<Longrightarrow>
   \<not> running_d (d_pc s i)"
  unfolding others_idle_def d_tid_def d_pc_def by blast

lemma optD_ee:
  "one_per_thread s \<Longrightarrow> j < length (emits s) \<Longrightarrow> k < length (emits s) \<Longrightarrow> j \<noteq> k \<Longrightarrow>
   e_tid s j = e_tid s k \<Longrightarrow> running_e (e_pc s j) \<Longrightarrow> running_e (e_pc s k) \<Longrightarrow> False"
  unfolding one_per_thread_def by blast

lemma optD_dd:
  "one_per_thread s \<Longrightarrow> i < length (tasks s) \<Longrightarrow> k < length (tasks s) \<Longrightarrow> i \<noteq> k \<Longrightarrow>
   d_tid s i = d_tid s k \<Longrightarrow> running_d (d_pc s i) \<Longrightarrow> running_d (d_pc s k) \<Longrightarrow> False"
  unfolding one_per_thread_def by blast

lemma optD_ed:
  "one_per_thread s \<Longrightarrow> j < length (emits s) \<Longrightarrow> i < length (tasks s) \<Longrightarrow>
   e_tid s j = d_tid s i \<Longrightarrow> running_e (e_pc s j) \<Longrightarrow> running_d (d_pc s i) \<Longrightarrow> False"
  unfolding one_per_thread_def by blast

lemma emit_step_tasks:
  "emit_step env t r pc s = Some (pc', s1) \<Longrightarrow>
   emits s1 = emits s \<and> (tasks s1 = tasks s \<or> tasks s1 = tasks s @ [(t, L67)])"
  by (cases pc) (auto simp: acquire_def release_def split: option.splits if_splits sum.splits)

lemma one_per_thread_emit:
  assumes inv: "one_per_thread s" and st: "step env (Emit j) s = Some s'"
  shows "one_per_thread s'"
proof -
  from st obtain t r pc pc' s1 where j: "j < length (emits s)" and ej: "emits s ! j = (t, r, pc)"
    and idle: "others_idle s t (Some j) None" and es: "emit_step env t r pc s = Some (pc', s1)"
    and s': "s' = s1\<lparr>emits := (emits s1)[j := (t, r, pc')]\<rparr>"
    by (rule step_EmitE)
  from emit_step_tasks [OF es] s' have em: "emits s' = (emits s)[j := (t, r, pc')]"
    and ts: "tasks s' = tasks s \<or> tasks s' = tasks s @ [(t, L67)]" by auto
  have tj: "e_tid s j = t" using ej by (simp add: e_tid_def)
  have len: "length (emits s') = length (emits s)" using em by simp
  have e_same: "e_tid s' k = e_tid s k" if "k < length (emits s)" for k
    using em that ej by (cases "k = j") (simp_all add: e_tid_def)
  have e_pc_same: "e_pc s' k = e_pc s k" if "k \<noteq> j" for k
    using em that by (simp add: e_pc_def)
  have d_old: "i < length (tasks s) \<and> d_tid s' i = d_tid s i \<and> d_pc s' i = d_pc s i"
    if "i < length (tasks s')" "running_d (d_pc s' i)" for i
  proof (cases "i < length (tasks s)")
    case True
    with ts show ?thesis by (auto simp: d_tid_def d_pc_def nth_append)
  next
    case False
    with ts that have "tasks s' = tasks s @ [(t, L67)]" "i = length (tasks s)" by auto
    with that(2) show ?thesis by (simp add: d_pc_def)
  qed
  show ?thesis
    unfolding one_per_thread_def
  proof (intro conjI allI impI notI)
    fix a b assume a: "a < length (emits s')" and b: "b < length (emits s')"
      and h: "a \<noteq> b \<and> e_tid s' a = e_tid s' b \<and> running_e (e_pc s' a)" and rb: "running_e (e_pc s' b)"
    from a b len have a': "a < length (emits s)" and b': "b < length (emits s)" by simp_all
    from h e_same [OF a'] e_same [OF b'] have th: "e_tid s a = e_tid s b" by simp
    show False
    proof (cases "a = j")
      case True
      with h have "b \<noteq> j" by simp
      with rb e_pc_same have "running_e (e_pc s b)" by simp
      with idleD_e [OF idle b'] \<open>b \<noteq> j\<close> th True tj show False by simp
    next
      case False
      with h e_pc_same have ra: "running_e (e_pc s a)" by simp
      show False
      proof (cases "b = j")
        case True
        with idleD_e [OF idle a'] False th tj ra show False by simp
      next
        case bj: False
        with rb e_pc_same have "running_e (e_pc s b)" by simp
        with optD_ee [OF inv a' b'] h th ra show False by simp
      qed
    qed
  next
    fix a b assume a: "a < length (tasks s')" and b: "b < length (tasks s')"
      and h: "a \<noteq> b \<and> d_tid s' a = d_tid s' b \<and> running_d (d_pc s' a)" and rb: "running_d (d_pc s' b)"
    from d_old [OF a] h have a': "a < length (tasks s)" "d_tid s' a = d_tid s a" "d_pc s' a = d_pc s a" by simp_all
    from d_old [OF b rb] have b': "b < length (tasks s)" "d_tid s' b = d_tid s b" "d_pc s' b = d_pc s b" by simp_all
    from optD_dd [OF inv a'(1) b'(1)] h rb a' b' show False by simp
  next
    fix a i assume a: "a < length (emits s')" and i: "i < length (tasks s')"
      and h: "e_tid s' a = d_tid s' i \<and> running_e (e_pc s' a)" and ri: "running_d (d_pc s' i)"
    from a len have a': "a < length (emits s)" by simp
    from d_old [OF i ri] have i': "i < length (tasks s)" "d_tid s' i = d_tid s i" "d_pc s' i = d_pc s i" by simp_all
    show False
    proof (cases "a = j")
      case True
      with h e_same [OF a'] i' tj have "d_tid s i = t" by simp
      with idleD_d [OF idle i'(1)] ri i' show False by simp
    next
      case False
      with h e_pc_same have "running_e (e_pc s a)" by simp
      with optD_ed [OF inv a' i'(1)] h e_same [OF a'] i' ri show False by simp
    qed
  qed
qed

lemma one_per_thread_drain:
  assumes inv: "one_per_thread s" and st: "step env (Drain i) s = Some s'"
  shows "one_per_thread s'"
proof -
  from st obtain t pc pc' s1 where i: "i < length (tasks s)" and ti: "tasks s ! i = (t, pc)"
    and idle: "others_idle s t None (Some i)" and ds: "drain_step env t pc s = Some (pc', s1)"
    and s': "s' = s1\<lparr>tasks := (tasks s1)[i := (t, pc')]\<rparr>"
    by (rule step_DrainE)
  from drain_step_frame [OF ds] s' have ts: "tasks s' = (tasks s)[i := (t, pc')]"
    and em: "emits s' = emits s" by auto
  have tid: "d_tid s i = t" using ti by (simp add: d_tid_def)
  have len: "length (tasks s') = length (tasks s)" using ts by simp
  have d_same: "d_tid s' k = d_tid s k" if "k < length (tasks s)" for k
    using ts that ti by (cases "k = i") (simp_all add: d_tid_def)
  have d_pc_same: "d_pc s' k = d_pc s k" if "k \<noteq> i" for k
    using ts that by (simp add: d_pc_def)
  have e_same: "e_tid s' k = e_tid s k" "e_pc s' k = e_pc s k" for k
    using em by (simp_all add: e_tid_def e_pc_def)
  show ?thesis
    unfolding one_per_thread_def
  proof (intro conjI allI impI notI)
    fix a b assume a: "a < length (emits s')" and b: "b < length (emits s')"
      and h: "a \<noteq> b \<and> e_tid s' a = e_tid s' b \<and> running_e (e_pc s' a)" and rb: "running_e (e_pc s' b)"
    from optD_ee [OF inv, of a b] a b h rb em e_same show False by simp
  next
    fix a b assume a: "a < length (tasks s')" and b: "b < length (tasks s')"
      and h: "a \<noteq> b \<and> d_tid s' a = d_tid s' b \<and> running_d (d_pc s' a)" and rb: "running_d (d_pc s' b)"
    from a b len have a': "a < length (tasks s)" and b': "b < length (tasks s)" by simp_all
    from h d_same [OF a'] d_same [OF b'] have th: "d_tid s a = d_tid s b" by simp
    show False
    proof (cases "a = i")
      case True
      with h have "b \<noteq> i" by simp
      with rb d_pc_same have "running_d (d_pc s b)" by simp
      with idleD_d [OF idle b'] \<open>b \<noteq> i\<close> th True tid show False by simp
    next
      case False
      with h d_pc_same have ra: "running_d (d_pc s a)" by simp
      show False
      proof (cases "b = i")
        case True
        with idleD_d [OF idle a'] False th tid ra show False by simp
      next
        case bi: False
        with rb d_pc_same have "running_d (d_pc s b)" by simp
        with optD_dd [OF inv a' b'] h th ra show False by simp
      qed
    qed
  next
    fix a k assume a: "a < length (emits s')" and k: "k < length (tasks s')"
      and h: "e_tid s' a = d_tid s' k \<and> running_e (e_pc s' a)" and rk: "running_d (d_pc s' k)"
    from a em have a': "a < length (emits s)" by simp
    from k len have k': "k < length (tasks s)" by simp
    from h e_same d_same [OF k'] have th: "e_tid s a = d_tid s k" and ra: "running_e (e_pc s a)" by simp_all
    show False
    proof (cases "k = i")
      case True
      with th tid have "e_tid s a = t" by simp
      with idleD_e [OF idle a'] ra show False by simp
    next
      case False
      with rk d_pc_same have "running_d (d_pc s k)" by simp
      with optD_ed [OF inv a' k'] th ra show False by simp
    qed
  qed
qed

lemma one_per_thread_run: "one_per_thread s \<Longrightarrow> run env sched s = Some s' \<Longrightarrow> one_per_thread s'"
proof (induction sched arbitrary: s)
  case Nil then show ?case by simp
next
  case (Cons a sched)
  from Cons.prems(2) obtain s1 where 1: "step env a s = Some s1" and 2: "run env sched s1 = Some s'"
    by (auto split: option.splits)
  have "one_per_thread s1"
    using Cons.prems(1) 1 by (cases a) (blast intro: one_per_thread_emit one_per_thread_drain)+
  from Cons.IH [OF this 2] show ?case .
qed

lemma one_per_thread_init: "one_per_thread (with_emits invs (init nm dbn u p h port))"
  by (auto simp: one_per_thread_def with_emits_def init_def e_pc_def split: prod.splits)

lemma running_holds: "running_e pc \<Longrightarrow> holds_e pc"
  by (cases pc) auto

lemma lock_ok_owner_e:
  "lock_ok s \<Longrightarrow> j < length (emits s) \<Longrightarrow> holds_e (e_pc s j) \<Longrightarrow> \<exists>n. lock s = Some (e_tid s j, n) \<and> 0 < n"
  by (cases "lock s") (auto simp: lock_ok_def dest: holders_zero_e)


text \<open>
  Claim C5: in every state that any schedule of any calls of \<^verbatim>\<open>emit\<close> reaches from a new
  handler, at most one task is draining; while a call of \<^verbatim>\<open>emit\<close> is between its test
  of the flag and its assignment to it, the flag is still clear and no task is draining,
  so each idle period ends with exactly one task being created; and no two calls of
  \<^verbatim>\<open>emit\<close> are between \<^verbatim>\<open>acquire\<close> and \<^verbatim>\<open>release\<close> at the same time.
\<close>

theorem single_drain_task:
  assumes "run env sched (with_emits invs (init nm dbn u p h port)) = Some s"
  shows "(\<forall>i<length (tasks s). \<forall>k<length (tasks s).
            active_d (d_pc s i) \<and> active_d (d_pc s k) \<longrightarrow> i = k)
     \<and> (\<forall>j<length (emits s). e_pc s j = L62 \<or> e_pc s j = L63 \<longrightarrow>
            emitter s = None \<and> (\<forall>i<length (tasks s). \<not> active_d (d_pc s i)))
     \<and> (\<forall>j<length (emits s). \<forall>k<length (emits s).
            running_e (e_pc s j) \<and> running_e (e_pc s k) \<longrightarrow> j = k)"
proof -
  from invariant_run [OF invariant_init assms] have lk: "lock_ok s" and fl: "flag_ok s"
    by (simp_all add: invariant_def)
  from one_per_thread_run [OF one_per_thread_init assms] have opt: "one_per_thread s" .
  show ?thesis
  proof (intro conjI allI impI)
    fix i k assume i: "i < length (tasks s)" and k: "k < length (tasks s)"
      and a: "active_d (d_pc s i) \<and> active_d (d_pc s k)"
    from flag_okD1 [OF fl i] flag_okD1 [OF fl k] a show "i = k" by simp
  next
    fix j assume j: "j < length (emits s)" and a: "e_pc s j = L62 \<or> e_pc s j = L63"
    from flag_okD2 [OF fl j a] show "emitter s = None" .
  next
    fix j i assume j: "j < length (emits s)" and a: "e_pc s j = L62 \<or> e_pc s j = L63"
      and i: "i < length (tasks s)"
    from flag_okD2 [OF fl j a] have "emitter s = None" .
    with flag_okD1 [OF fl i] show "\<not> active_d (d_pc s i)" by auto
  next
    fix j k assume j: "j < length (emits s)" and k: "k < length (emits s)"
      and a: "running_e (e_pc s j) \<and> running_e (e_pc s k)"
    from a have h: "holds_e (e_pc s j)" "holds_e (e_pc s k)" by (simp_all add: running_holds)
    from lock_ok_owner_e [OF lk j h(1)] lock_ok_owner_e [OF lk k h(2)]
    have "e_tid s j = e_tid s k" by auto
    with optD_ee [OF opt j k] a show "j = k" by blast
  qed
qed

section \<open>Executions\<close>

lemmas run_eval = two_calls_def with_emits_def handler0_def init_def obs_def others_idle_def
  acquire_def release_def env0_def env_down_def All_less_Suc numeral_eq_Suc

lemma run_first_emit:
  "map_option obs (run env0 (replicate 6 (Emit 0)) two_calls)
     = Some (None, Some 0, [rec_a], [(0, L67)], [Returned, L58], [])"
  by (simp add: run_eval)

lemma run_connecting:
  "map_option obs (run env0 (replicate 6 (Emit 0) @ replicate 3 (Drain 0)) two_calls)
     = Some (Some (0, 1), Some 0, [rec_a], [(0, L71_await None)], [Returned, L58], [])"
  by (simp add: run_eval)

lemma run_connecting_blocked:
  "run env0 (replicate 6 (Emit 0) @ replicate 3 (Drain 0) @ [Emit 1]) two_calls = None"
  by (simp add: run_eval)




lemma run_strand_before_clear:
  "map_option obs (run env0 (butlast sched_strand) two_calls)
     = Some (None, Some 0, [rec_b], [(0, L83)], [Returned, Returned], [rec_a])"
  by (simp add: sched_strand_def run_eval async_emit_unchanged async_emit_handled)

lemma run_strand:
  "map_option obs (run env0 sched_strand two_calls)
     = Some (None, None, [rec_b], [(0, Finished)], [Returned, Returned], [rec_a])"
  by (simp add: sched_strand_def run_eval async_emit_unchanged async_emit_handled)

text \<open>
  Claim C3 against the code. Thread 0 calls \<^verbatim>\<open>emit\<close>, the task connects, drains the queue,
  processes the record and finds the queue empty at line 74; then thread 1 calls
  \<^verbatim>\<open>emit\<close> and returns, finding the flag set; then the task executes line 83. Both
  calls have returned before the task is gone, the task has ended and the flag is clear,
  but only the first record was ever given to \<^verbatim>\<open>async_emit\<close>: the second stays in the
  queue, with no task to drain it.
\<close>

theorem accepted_record_left_in_queue:
  "map_option obs (run env0 (butlast sched_strand) two_calls)
     = Some (None, Some 0, [rec_b], [(0, L83)], [Returned, Returned], [rec_a])
   \<and> last sched_strand = Drain 0
   \<and> map_option obs (run env0 sched_strand two_calls)
     = Some (None, None, [rec_b], [(0, Finished)], [Returned, Returned], [rec_a])"
  using run_strand_before_clear run_strand by (simp add: sched_strand_def)

text \<open>
  Claim C4 against the code. Line 83 needs no lock and takes none: the step that clears
  the flag is possible in every state, and in the execution above it is taken while
  nobody holds the lock.
\<close>

theorem flag_cleared_without_lock:
  "drain_step env t L83 s = Some (Finished, s\<lparr>emitter := None\<rparr>)
   \<and> map_option (\<lambda>s. (lock s, tasks s, emitter s)) (run env0 (butlast sched_strand) two_calls)
       = Some (None, [(0, L83)], Some 0)
   \<and> map_option (\<lambda>s. (lock s, tasks s, emitter s)) (run env0 sched_strand two_calls)
       = Some (None, [(0, Finished)], None)"
proof -
  have a: "map_option (\<lambda>s. (lock s, tasks s, emitter s)) (run env0 (butlast sched_strand) two_calls)
       = Some (None, [(0, L83)], Some 0)"
    using run_strand_before_clear by (auto simp: obs_def)
  have b: "map_option (\<lambda>s. (lock s, tasks s, emitter s)) (run env0 sched_strand two_calls)
       = Some (None, [(0, Finished)], None)"
    using run_strand by (auto simp: obs_def)
  from a b show ?thesis by simp
qed

text \<open>
  Claim C8, as stated, fails: while the task is suspended in \<^verbatim>\<open>await connect(...)\<close>
  it holds the handler lock (lines 70--72), and a call of \<^verbatim>\<open>emit\<close> on another thread
  cannot take its first step until storage has answered.
\<close>

theorem emit_blocked_during_connect:
  "map_option obs (run env0 (replicate 6 (Emit 0) @ replicate 3 (Drain 0)) two_calls)
     = Some (Some (0, 1), Some 0, [rec_a], [(0, L71_await None)], [Returned, L58], [])
   \<and> e_tid two_calls 1 = 1
   \<and> run env0 (replicate 6 (Emit 0) @ replicate 3 (Drain 0) @ [Emit 1]) two_calls = None"
  using run_connecting run_connecting_blocked
  by (simp add: e_tid_def two_calls_def with_emits_def)


lemma run_SomeE:
  assumes "map_option f (run env sched s) = Some v"
  obtains s' where "run env sched s = Some s'" "f s' = v"
  using assms by (cases "run env sched s") auto

theorem single_drain_task_witness:
  "\<exists>s. run env0 (replicate 6 (Emit 0))
          (with_emits [(0, rec_a), (1, rec_b)] (init ''app'' ''logs'' None None ''localhost'' 5432))
        = Some s
       \<and> tasks s = [(0, L67)] \<and> active_d (d_pc s 0) \<and> emitter s = Some 0
       \<and> \<not> (\<exists>i k. i < length (tasks s) \<and> k < length (tasks s) \<and> active_d (d_pc s i)
                   \<and> active_d (d_pc s k) \<and> i \<noteq> k)
       \<and> \<not> (\<exists>j k. j < length (emits s) \<and> k < length (emits s) \<and> running_e (e_pc s j)
                   \<and> running_e (e_pc s k) \<and> j \<noteq> k)"
proof -
  from run_first_emit obtain s where r: "run env0 (replicate 6 (Emit 0)) two_calls = Some s"
    and o: "obs s = (None, Some 0, [rec_a], [(0, L67)], [Returned, L58], [])"
    by (rule run_SomeE)
  from r have r': "run env0 (replicate 6 (Emit 0))
          (with_emits [(0, rec_a), (1, rec_b)] (init ''app'' ''logs'' None None ''localhost'' 5432))
        = Some s" by (simp add: two_calls_def handler0_def)
  from o have t: "tasks s = [(0, L67)]" "emitter s = Some 0" by (simp_all add: obs_def)
  from single_drain_task [OF r'] r' t show ?thesis
    by (intro exI [of _ s]) (auto simp: d_pc_def)
qed

section \<open>A call of \<^verbatim>\<open>emit\<close> run on its own\<close>

lemma others_idle_self_update:
  assumes idle: "others_idle s t (Some j) None" and es: "emits s1 = emits s"
    and ts: "tasks s1 = tasks s \<or> tasks s1 = tasks s @ [(t', L67)]"
  shows "others_idle (s1\<lparr>emits := (emits s1)[j := (t, r, pc')]\<rparr>) t (Some j) None"
  unfolding others_idle_def
proof (intro conjI allI impI)
  fix k assume k: "k < length (emits (s1\<lparr>emits := (emits s1)[j := (t, r, pc')]\<rparr>))"
    and h: "Some k \<noteq> Some j \<and> fst (emits (s1\<lparr>emits := (emits s1)[j := (t, r, pc')]\<rparr>) ! k) = t"
  from h have kj: "k \<noteq> j" by simp
  with k h es have "k < length (emits s)" "fst (emits s ! k) = t" by simp_all
  with idle kj have "\<not> running_e (snd (snd (emits s ! k)))" unfolding others_idle_def by blast
  with kj es show "\<not> running_e (snd (snd (emits (s1\<lparr>emits := (emits s1)[j := (t, r, pc')]\<rparr>) ! k)))"
    by simp
next
  fix i assume i: "i < length (tasks (s1\<lparr>emits := (emits s1)[j := (t, r, pc')]\<rparr>))"
    and h: "Some i \<noteq> None \<and> fst (tasks (s1\<lparr>emits := (emits s1)[j := (t, r, pc')]\<rparr>) ! i) = t"
  show "\<not> running_d (snd (tasks (s1\<lparr>emits := (emits s1)[j := (t, r, pc')]\<rparr>) ! i))"
  proof (cases "i < length (tasks s)")
    case True
    with ts have e: "tasks s1 ! i = tasks s ! i" by (auto simp: nth_append)
    with h have "fst (tasks s ! i) = t" by simp
    with idle True have "\<not> running_d (snd (tasks s ! i))" unfolding others_idle_def by blast
    with e show ?thesis by simp
  next
    case False
    with ts i have "tasks s1 = tasks s @ [(t', L67)]" "i = length (tasks s)" by auto
    then show ?thesis by simp
  qed
qed

lemma emit_step_taken:
  assumes "j < length (emits s)" "emits s ! j = (t, r, pc)" "others_idle s t (Some j) None"
    "emit_step env t r pc s = Some (pc', s1)"
  shows "step env (Emit j) s = Some (s1\<lparr>emits := (emits s1)[j := (t, r, pc')]\<rparr>)"
  using assms by simp

lemma acquire_release:
  assumes "lock s = None \<or> (\<exists>n. lock s = Some (t, n) \<and> 0 < n)"
  obtains l1 where "acquire t s = Some (s\<lparr>lock := Some l1\<rparr>)"
    "\<And>s2. lock s2 = Some l1 \<Longrightarrow> release t s2 = Inr (s2\<lparr>lock := lock s\<rparr>)"
proof (cases "lock s")
  case None
  show thesis
  proof (rule that [of "(t, 1)"])
    show "acquire t s = Some (s\<lparr>lock := Some (t, 1)\<rparr>)" using None by (simp add: acquire_def)
    show "release t s2 = Inr (s2\<lparr>lock := lock s\<rparr>)" if "lock s2 = Some (t, 1)" for s2
      using that None by (simp add: release_def)
  qed
next
  case (Some l)
  with assms obtain n where n: "lock s = Some (t, n)" "0 < n" by auto
  show thesis
  proof (rule that [of "(t, n + 1)"])
    show "acquire t s = Some (s\<lparr>lock := Some (t, n + 1)\<rparr>)" using n by (simp add: acquire_def)
    show "release t s2 = Inr (s2\<lparr>lock := lock s\<rparr>)" if "lock s2 = Some (t, n + 1)" for s2
      using that n by (simp add: release_def)
  qed
qed

lemma replicate_4: "replicate 4 x = [x, x, x, x]"
  by (simp add: numeral_eq_Suc)

lemma replicate_6: "replicate 6 x = [x, x, x, x, x, x]"
  by (simp add: numeral_eq_Suc)

lemma acquire_release_ex:
  assumes "lock s = None \<or> (\<exists>n. lock s = Some (t, n) \<and> 0 < n)"
  shows "\<exists>l1. acquire t s = Some (s\<lparr>lock := Some l1\<rparr>)
            \<and> (\<forall>s2. lock s2 = Some l1 \<longrightarrow> release t s2 = Inr (s2\<lparr>lock := lock s\<rparr>))"
  by (rule acquire_release [OF assms]) blast

lemma emit_run_flag_set:
  assumes j: "j < length (emits s)" and ej: "emits s ! j = (t, r, L58)"
    and idle: "others_idle s t (Some j) None"
    and lk: "lock s = None \<or> (\<exists>n. lock s = Some (t, n) \<and> 0 < n)"
    and em: "emitter s \<noteq> None"
  shows "run env (replicate 4 (Emit j)) s
           = Some (s\<lparr>queue := queue s @ [r], emits := (emits s)[j := (t, r, Returned)]\<rparr>)"
proof -
  from acquire_release_ex [OF lk] obtain l1 where a: "acquire t s = Some (s\<lparr>lock := Some l1\<rparr>)"
    and rel: "\<And>s2. lock s2 = Some l1 \<Longrightarrow> release t s2 = Inr (s2\<lparr>lock := lock s\<rparr>)"
    by blast
  define a1 where "a1 = s\<lparr>lock := Some l1\<rparr>"
  define s1 where "s1 = a1\<lparr>emits := (emits a1)[j := (t, r, L59)]\<rparr>"
  define a2 where "a2 = s1\<lparr>queue := queue s1 @ [r]\<rparr>"
  define s2 where "s2 = a2\<lparr>emits := (emits a2)[j := (t, r, L61)]\<rparr>"
  define s3 where "s3 = s2\<lparr>emits := (emits s2)[j := (t, r, L64)]\<rparr>"
  define a4 where "a4 = s3\<lparr>lock := lock s\<rparr>"
  define s4 where "s4 = a4\<lparr>emits := (emits a4)[j := (t, r, Returned)]\<rparr>"
  have e1: "emits a1 = emits s" "tasks a1 = tasks s" by (simp_all add: a1_def)
  have i1: "others_idle s1 t (Some j) None"
    unfolding s1_def by (rule others_idle_self_update [OF idle]) (simp_all add: e1)
  have j1: "j < length (emits s1)" "emits s1 ! j = (t, r, L59)" using j by (simp_all add: s1_def e1)
  have e2: "emits a2 = emits s1" "tasks a2 = tasks s1" by (simp_all add: a2_def)
  have i2: "others_idle s2 t (Some j) None"
    unfolding s2_def by (rule others_idle_self_update [OF i1]) (simp_all add: e2)
  have j2: "j < length (emits s2)" "emits s2 ! j = (t, r, L61)" using j1 by (simp_all add: s2_def e2)
  have i3: "others_idle s3 t (Some j) None"
    unfolding s3_def by (rule others_idle_self_update [OF i2]) simp_all
  have j3: "j < length (emits s3)" "emits s3 ! j = (t, r, L64)" using j2 by (simp_all add: s3_def)
  have em2: "emitter s2 \<noteq> None" using em by (simp add: s2_def a2_def s1_def a1_def)
  have l3: "lock s3 = Some l1" by (simp add: s3_def s2_def a2_def s1_def a1_def)
  have 1: "step env (Emit j) s = Some s1"
    unfolding s1_def by (rule emit_step_taken [OF j ej idle]) (simp add: a a1_def)
  have 2: "step env (Emit j) s1 = Some s2"
    unfolding s2_def by (rule emit_step_taken [OF j1 i1]) (simp add: a2_def)
  have 3: "step env (Emit j) s2 = Some s3"
    unfolding s3_def by (rule emit_step_taken [OF j2 i2]) (simp add: em2)
  have 4: "step env (Emit j) s3 = Some s4"
    unfolding s4_def by (rule emit_step_taken [OF j3 i3]) (simp add: rel [OF l3] a4_def)
  have fin: "s4 = s\<lparr>queue := queue s @ [r], emits := (emits s)[j := (t, r, Returned)]\<rparr>"
    by (simp add: s4_def a4_def s3_def s2_def a2_def s1_def a1_def)
  have "run env [Emit j, Emit j, Emit j, Emit j] s = Some s4"
    by (simp only: run.simps 1 2 3 4 option.case)
  then show ?thesis by (simp only: fin replicate_4)
qed

lemma emit_run_spawn:
  assumes j: "j < length (emits s)" and ej: "emits s ! j = (t, r, L58)"
    and idle: "others_idle s t (Some j) None"
    and lk: "lock s = None \<or> (\<exists>n. lock s = Some (t, n) \<and> 0 < n)"
    and em: "emitter s = None" and lp: "has_loop env t"
  shows "run env (replicate 6 (Emit j)) s
           = Some (s\<lparr>queue := queue s @ [r], tasks := tasks s @ [(t, L67)],
                     emitter := Some (length (tasks s)),
                     emits := (emits s)[j := (t, r, Returned)]\<rparr>)"
proof -
  from acquire_release_ex [OF lk] obtain l1 where a: "acquire t s = Some (s\<lparr>lock := Some l1\<rparr>)"
    and rel: "\<And>s2. lock s2 = Some l1 \<Longrightarrow> release t s2 = Inr (s2\<lparr>lock := lock s\<rparr>)"
    by blast
  define a1 where "a1 = s\<lparr>lock := Some l1\<rparr>"
  define s1 where "s1 = a1\<lparr>emits := (emits a1)[j := (t, r, L59)]\<rparr>"
  define a2 where "a2 = s1\<lparr>queue := queue s1 @ [r]\<rparr>"
  define s2 where "s2 = a2\<lparr>emits := (emits a2)[j := (t, r, L61)]\<rparr>"
  define s3 where "s3 = s2\<lparr>emits := (emits s2)[j := (t, r, L62)]\<rparr>"
  define s4 where "s4 = s3\<lparr>emits := (emits s3)[j := (t, r, L63)]\<rparr>"
  define a5 where "a5 = s4\<lparr>tasks := tasks s4 @ [(t, L67)], emitter := Some (length (tasks s4))\<rparr>"
  define s5 where "s5 = a5\<lparr>emits := (emits a5)[j := (t, r, L64)]\<rparr>"
  define a6 where "a6 = s5\<lparr>lock := lock s\<rparr>"
  define s6 where "s6 = a6\<lparr>emits := (emits a6)[j := (t, r, Returned)]\<rparr>"
  have e1: "emits a1 = emits s" "tasks a1 = tasks s" by (simp_all add: a1_def)
  have i1: "others_idle s1 t (Some j) None"
    unfolding s1_def by (rule others_idle_self_update [OF idle]) (simp_all add: e1)
  have j1: "j < length (emits s1)" "emits s1 ! j = (t, r, L59)" using j by (simp_all add: s1_def e1)
  have e2: "emits a2 = emits s1" "tasks a2 = tasks s1" by (simp_all add: a2_def)
  have i2: "others_idle s2 t (Some j) None"
    unfolding s2_def by (rule others_idle_self_update [OF i1]) (simp_all add: e2)
  have j2: "j < length (emits s2)" "emits s2 ! j = (t, r, L61)" using j1 by (simp_all add: s2_def e2)
  have i3: "others_idle s3 t (Some j) None"
    unfolding s3_def by (rule others_idle_self_update [OF i2]) simp_all
  have j3: "j < length (emits s3)" "emits s3 ! j = (t, r, L62)" using j2 by (simp_all add: s3_def)
  have i4: "others_idle s4 t (Some j) None"
    unfolding s4_def by (rule others_idle_self_update [OF i3]) simp_all
  have j4: "j < length (emits s4)" "emits s4 ! j = (t, r, L63)" using j3 by (simp_all add: s4_def)
  have e5: "emits a5 = emits s4" "tasks a5 = tasks s4 @ [(t, L67)]" by (simp_all add: a5_def)
  have i5: "others_idle s5 t (Some j) None"
    unfolding s5_def by (rule others_idle_self_update [OF i4, where t' = t]) (simp_all add: e5)
  have j5: "j < length (emits s5)" "emits s5 ! j = (t, r, L64)" using j4 by (simp_all add: s5_def e5)
  have em2: "emitter s2 = None" using em by (simp add: s2_def a2_def s1_def a1_def)
  have l5: "lock s5 = Some l1"
    by (simp add: s5_def a5_def s4_def s3_def s2_def a2_def s1_def a1_def)
  have 1: "step env (Emit j) s = Some s1"
    unfolding s1_def by (rule emit_step_taken [OF j ej idle]) (simp add: a a1_def)
  have 2: "step env (Emit j) s1 = Some s2"
    unfolding s2_def by (rule emit_step_taken [OF j1 i1]) (simp add: a2_def)
  have 3: "step env (Emit j) s2 = Some s3"
    unfolding s3_def by (rule emit_step_taken [OF j2 i2]) (simp add: em2)
  have 4: "step env (Emit j) s3 = Some s4"
    unfolding s4_def by (rule emit_step_taken [OF j3 i3]) (simp add: lp)
  have 5: "step env (Emit j) s4 = Some s5"
    unfolding s5_def by (rule emit_step_taken [OF j4 i4]) (simp add: a5_def)
  have 6: "step env (Emit j) s5 = Some s6"
    unfolding s6_def by (rule emit_step_taken [OF j5 i5]) (simp add: rel [OF l5] a6_def)
  have fin: "s6 = s\<lparr>queue := queue s @ [r], tasks := tasks s @ [(t, L67)],
                     emitter := Some (length (tasks s)),
                     emits := (emits s)[j := (t, r, Returned)]\<rparr>"
    by (simp add: s6_def a6_def s5_def a5_def s4_def s3_def s2_def a2_def s1_def a1_def)
  have "run env [Emit j, Emit j, Emit j, Emit j, Emit j, Emit j] s = Some s6"
    by (simp only: run.simps 1 2 3 4 5 6 option.case)
  then show ?thesis by (simp only: fin replicate_6)
qed

lemma emit_run_no_loop:
  assumes j: "j < length (emits s)" and ej: "emits s ! j = (t, r, L58)"
    and idle: "others_idle s t (Some j) None"
    and lk: "lock s = None \<or> (\<exists>n. lock s = Some (t, n) \<and> 0 < n)"
    and em: "emitter s = None" and lp: "\<not> has_loop env t"
  shows "\<exists>l1. acquire t s = Some (s\<lparr>lock := Some l1\<rparr>) \<and>
           run env (replicate 4 (Emit j)) s
           = Some (s\<lparr>queue := queue s @ [r], lock := Some l1,
                     emits := (emits s)[j := (t, r, Raised 62 (Exception ''RuntimeError''))]\<rparr>)"
proof -
  from acquire_release_ex [OF lk] obtain l1 where a: "acquire t s = Some (s\<lparr>lock := Some l1\<rparr>)"
    by blast
  define a1 where "a1 = s\<lparr>lock := Some l1\<rparr>"
  define s1 where "s1 = a1\<lparr>emits := (emits a1)[j := (t, r, L59)]\<rparr>"
  define a2 where "a2 = s1\<lparr>queue := queue s1 @ [r]\<rparr>"
  define s2 where "s2 = a2\<lparr>emits := (emits a2)[j := (t, r, L61)]\<rparr>"
  define s3 where "s3 = s2\<lparr>emits := (emits s2)[j := (t, r, L62)]\<rparr>"
  define s4 where "s4 = s3\<lparr>emits := (emits s3)[j := (t, r, Raised 62 (Exception ''RuntimeError''))]\<rparr>"
  have e1: "emits a1 = emits s" "tasks a1 = tasks s" by (simp_all add: a1_def)
  have i1: "others_idle s1 t (Some j) None"
    unfolding s1_def by (rule others_idle_self_update [OF idle]) (simp_all add: e1)
  have j1: "j < length (emits s1)" "emits s1 ! j = (t, r, L59)" using j by (simp_all add: s1_def e1)
  have e2: "emits a2 = emits s1" "tasks a2 = tasks s1" by (simp_all add: a2_def)
  have i2: "others_idle s2 t (Some j) None"
    unfolding s2_def by (rule others_idle_self_update [OF i1]) (simp_all add: e2)
  have j2: "j < length (emits s2)" "emits s2 ! j = (t, r, L61)" using j1 by (simp_all add: s2_def e2)
  have i3: "others_idle s3 t (Some j) None"
    unfolding s3_def by (rule others_idle_self_update [OF i2]) simp_all
  have j3: "j < length (emits s3)" "emits s3 ! j = (t, r, L62)" using j2 by (simp_all add: s3_def)
  have em2: "emitter s2 = None" using em by (simp add: s2_def a2_def s1_def a1_def)
  have 1: "step env (Emit j) s = Some s1"
    unfolding s1_def by (rule emit_step_taken [OF j ej idle]) (simp add: a a1_def)
  have 2: "step env (Emit j) s1 = Some s2"
    unfolding s2_def by (rule emit_step_taken [OF j1 i1]) (simp add: a2_def)
  have 3: "step env (Emit j) s2 = Some s3"
    unfolding s3_def by (rule emit_step_taken [OF j2 i2]) (simp add: em2)
  have 4: "step env (Emit j) s3 = Some s4"
    unfolding s4_def by (rule emit_step_taken [OF j3 i3]) (simp add: lp)
  have fin: "s4 = s\<lparr>queue := queue s @ [r], lock := Some l1,
                     emits := (emits s)[j := (t, r, Raised 62 (Exception ''RuntimeError''))]\<rparr>"
    by (simp add: s4_def s3_def s2_def a2_def s1_def a1_def)
  have "run env [Emit j, Emit j, Emit j, Emit j] s = Some s4"
    by (simp only: run.simps 1 2 3 4 option.case)
  then have "run env (replicate 4 (Emit j)) s
           = Some (s\<lparr>queue := queue s @ [r], lock := Some l1,
                     emits := (emits s)[j := (t, r, Raised 62 (Exception ''RuntimeError''))]\<rparr>)"
    by (simp only: fin replicate_4)
  with a show ?thesis by blast
qed


text \<open>
  Claim C8, amended: a call of \<^verbatim>\<open>emit\<close> that finds the handler lock free, or owned by
  its own thread, is done after at most six of its own statements, whatever storage does:
  it has appended its record to the queue and made no storage call, and it has returned
  with the lock as it found it; the one exception is a call that finds no task active
  on a thread without an event loop, which raises \<^verbatim>\<open>RuntimeError\<close> at line 62 after the
  append. A call that finds the lock owned by another thread waits for it.
\<close>

theorem emit_returns_when_lock_available:
  assumes j: "j < length (emits s)" and ej: "emits s ! j = (t, r, L58)"
    and idle: "others_idle s t (Some j) None"
    and lk: "lock s = None \<or> (\<exists>n. lock s = Some (t, n) \<and> 0 < n)"
  shows "\<exists>n s'. n \<le> 6 \<and> run env (replicate n (Emit j)) s = Some s'
           \<and> queue s' = queue s @ [r] \<and> calls s' = calls s \<and> db s' = db s
           \<and> handled s' = handled s
           \<and> (e_pc s' j = Returned \<and> lock s' = lock s
                \<or> e_pc s' j = Raised 62 (Exception ''RuntimeError'')
                  \<and> emitter s = None \<and> \<not> has_loop env t)"
proof (cases "emitter s = None")
  case False
  from emit_run_flag_set [OF j ej idle lk False, of env] j show ?thesis
    by (intro exI [of _ 4] exI [of _ "s\<lparr>queue := queue s @ [r], emits := (emits s)[j := (t, r, Returned)]\<rparr>"])
       (simp add: e_pc_def)
next
  case True
  show ?thesis
  proof (cases "has_loop env t")
    case lp: True
    from emit_run_spawn [OF j ej idle lk True lp] j show ?thesis
      by (intro exI [of _ 6] exI [of _ "s\<lparr>queue := queue s @ [r], tasks := tasks s @ [(t, L67)],
                     emitter := Some (length (tasks s)),
                     emits := (emits s)[j := (t, r, Returned)]\<rparr>"])
         (simp add: e_pc_def)
  next
    case lp: False
    from emit_run_no_loop [OF j ej idle lk True lp] obtain l1 where
      "run env (replicate 4 (Emit j)) s
           = Some (s\<lparr>queue := queue s @ [r], lock := Some l1,
                     emits := (emits s)[j := (t, r, Raised 62 (Exception ''RuntimeError''))]\<rparr>)"
      by blast
    with j True lp show ?thesis
      by (intro exI [of _ 4] exI [of _ "s\<lparr>queue := queue s @ [r], lock := Some l1,
                     emits := (emits s)[j := (t, r, Raised 62 (Exception ''RuntimeError''))]\<rparr>"])
         (simp add: e_pc_def)
  qed
qed

theorem emit_returns_when_lock_available_witness:
  "0 < length (emits two_calls) \<and> emits two_calls ! 0 = (0, rec_a, L58)
   \<and> others_idle two_calls 0 (Some 0) None \<and> lock two_calls = None
   \<and> (\<exists>n s'. n \<le> 6 \<and> run env0 (replicate n (Emit 0)) two_calls = Some s'
         \<and> queue s' = queue two_calls @ [rec_a] \<and> calls s' = calls two_calls
         \<and> db s' = db two_calls \<and> e_pc s' 0 = Returned)"
proof -
  have h: "0 < length (emits two_calls)" "emits two_calls ! 0 = (0, rec_a, L58)"
    "others_idle two_calls 0 (Some 0) None" "lock two_calls = None" "has_loop env0 0"
    by (simp_all add: two_calls_def with_emits_def handler0_def init_def others_idle_def env0_def)
  from emit_returns_when_lock_available [OF h(1) h(2) h(3), of env0] h(4) h(5)
  have "\<exists>n s'. n \<le> 6 \<and> run env0 (replicate n (Emit 0)) two_calls = Some s'
         \<and> queue s' = queue two_calls @ [rec_a] \<and> calls s' = calls two_calls
         \<and> db s' = db two_calls \<and> e_pc s' 0 = Returned"
    by auto
  with h show ?thesis by blast
qed

section \<open>The drain task works through its batch\<close>

lemma call_storage_tasks:
  "call_storage env c (s\<lparr>tasks := T\<rparr>)
     = (fst (call_storage env c s), (snd (call_storage env c s))\<lparr>tasks := T\<rparr>)"
  by (simp add: call_storage_def)

lemma resolve_src_tasks:
  "resolve_src env r (s\<lparr>tasks := T\<rparr>)
     = (fst (resolve_src env r s), (snd (resolve_src env r s))\<lparr>tasks := T\<rparr>)"
  by (simp add: resolve_src_def call_storage_def split: option.splits sum.splits)

lemma resolve_func_tasks:
  "resolve_func env r src (s\<lparr>tasks := T\<rparr>)
     = (fst (resolve_func env r src s), (snd (resolve_func env r src s))\<lparr>tasks := T\<rparr>)"
  by (simp add: resolve_func_def call_storage_def split: option.splits sum.splits)

lemma resolve_logger_tasks:
  "resolve_logger env (s\<lparr>tasks := T\<rparr>)
     = (fst (resolve_logger env s), (snd (resolve_logger env s))\<lparr>tasks := T\<rparr>)"
  by (simp add: resolve_logger_def call_storage_def split: option.splits sum.splits)

lemma resolve_host_tasks:
  "resolve_host env k (s\<lparr>tasks := T\<rparr>)
     = (fst (resolve_host env k s), (snd (resolve_host env k s))\<lparr>tasks := T\<rparr>)"
  by (simp add: resolve_host_def call_storage_def split: option.splits sum.splits)

lemma resolve_tag_tasks:
  "resolve_tag env k (s\<lparr>tasks := T\<rparr>)
     = (fst (resolve_tag env k s), (snd (resolve_tag env k s))\<lparr>tasks := T\<rparr>)"
  by (simp add: resolve_tag_def call_storage_def split: option.splits sum.splits)

lemma resolve_tags_tasks:
  "resolve_tags env ts acc (s\<lparr>tasks := T\<rparr>)
     = (fst (resolve_tags env ts acc s), (snd (resolve_tags env ts acc s))\<lparr>tasks := T\<rparr>)"
proof (induction ts arbitrary: acc s)
  case Nil show ?case by simp
next
  case (Cons k ts)
  obtain x s1 where r: "resolve_tag env k s = (x, s1)" by (cases "resolve_tag env k s")
  show ?case
  proof (cases x)
    case (Inl e)
    with r show ?thesis by (simp add: resolve_tag_tasks)
  next
    case (Inr tag)
    with r Cons.IH [of "acc @ [tag]" s1] show ?thesis by (simp add: resolve_tag_tasks)
  qed
qed

lemma try_body_tasks:
  "try_body env h r (s\<lparr>tasks := T\<rparr>)
     = (fst (try_body env h r s), (snd (try_body env h r s))\<lparr>tasks := T\<rparr>)"
proof -
  obtain x1 s1 where 1: "resolve_src env r s = (x1, s1)" by (cases "resolve_src env r s")
  show ?thesis
  proof (cases x1)
    case (Inl e) with 1 show ?thesis by (simp add: try_body_def resolve_src_tasks)
  next
    case src: (Inr src)
    obtain x2 s2 where 2: "resolve_func env r src s1 = (x2, s2)" by (cases "resolve_func env r src s1")
    show ?thesis
    proof (cases x2)
      case (Inl e) with 1 2 src show ?thesis
        by (simp add: try_body_def resolve_src_tasks resolve_func_tasks)
    next
      case func: (Inr func)
      obtain x3 s3 where 3: "resolve_logger env s2 = (x3, s3)" by (cases "resolve_logger env s2")
      show ?thesis
      proof (cases x3)
        case (Inl e) with 1 2 3 src func show ?thesis
          by (simp add: try_body_def resolve_src_tasks resolve_func_tasks resolve_logger_tasks)
      next
        case logger: (Inr logger)
        obtain x4 s4 where 4: "resolve_host env h s3 = (x4, s4)" by (cases "resolve_host env h s3")
        show ?thesis
        proof (cases x4)
          case (Inl e) with 1 2 3 4 src func logger show ?thesis
            by (simp add: try_body_def resolve_src_tasks resolve_func_tasks resolve_logger_tasks
                resolve_host_tasks)
        next
          case host: (Inr host)
          show ?thesis
          proof (cases "getMessage r")
            case (Inl e) with 1 2 3 4 src func logger host show ?thesis
              by (simp add: try_body_def resolve_src_tasks resolve_func_tasks resolve_logger_tasks
                  resolve_host_tasks)
          next
            case msg: (Inr msg)
            let ?c = "Create LogEntry (entry_kwargs r msg func logger host)"
            obtain x5 s5 where 5: "call_storage env ?c s4 = (x5, s5)" by (cases "call_storage env ?c s4")
            show ?thesis
            proof (cases x5)
              case (Inl e) with 1 2 3 4 5 src func logger host msg show ?thesis
                by (simp add: try_body_def resolve_src_tasks resolve_func_tasks resolve_logger_tasks
                    resolve_host_tasks call_storage_tasks)
            next
              case entry: (Inr entry)
              obtain x6 s6 where 6: "resolve_tags env (tags_names r) [] s5 = (x6, s6)"
                by (cases "resolve_tags env (tags_names r) [] s5")
              show ?thesis
              proof (cases x6)
                case (Inl e) with 1 2 3 4 5 6 src func logger host msg entry show ?thesis
                  by (simp add: try_body_def resolve_src_tasks resolve_func_tasks resolve_logger_tasks
                      resolve_host_tasks call_storage_tasks resolve_tags_tasks)
              next
                case tgs: (Inr tgs)
                obtain x7 s7 where 7: "call_storage env (AddTags entry tgs) s6 = (x7, s7)"
                  by (cases "call_storage env (AddTags entry tgs) s6")
                with 1 2 3 4 5 6 src func logger host msg entry tgs show ?thesis
                  by (cases x7)
                     (simp_all add: try_body_def resolve_src_tasks resolve_func_tasks
                      resolve_logger_tasks resolve_host_tasks call_storage_tasks resolve_tags_tasks)
              qed
            qed
          qed
        qed
      qed
    qed
  qed
qed







lemma raises_tasks: "raises env r (s\<lparr>tasks := T\<rparr>) = raises env r s"
proof -
  have e: "(s\<lparr>tasks := T\<rparr>)\<lparr>handled := handled s @ [r]\<rparr>
             = (s\<lparr>handled := handled s @ [r]\<rparr>)\<lparr>tasks := T\<rparr>"
    by simp
  have h: "handled (s\<lparr>tasks := T\<rparr>) = handled s" by simp
  show ?thesis unfolding raises_def by (simp only: e h try_body_tasks fst_conv)
qed





section \<open>After a failed connect\<close>








end
